theory Spec2Isabelle
  imports Main "HOL-Library.AList"
begin

section \<open>Values held by an Entry (src/flexget/entry.py)\<close>

text \<open>
  Field names are Python strings. A resolver (the callback of a lazy field) is named by
  a number; what it does is given by an environment, see \<open>resolvers\<close> below.
\<close>

type_synonym key = string
type_synonym rid = nat

text \<open>
  The Python values the code distinguishes:
  \<^item> \<open>VNone\<close> is \<open>None\<close>;
  \<^item> \<open>VStr bs\<close> is a byte string (type \<open>str\<close>), \<open>bs\<close> its bytes;
  \<^item> \<open>VUnicode cs\<close> is a text string whose type is exactly \<open>unicode\<close>, \<open>cs\<close> its
    code points;
  \<^item> \<open>VUnicodeSub cs\<close> is an instance of a proper subclass of \<open>unicode\<close> (such as
    a NavigableString): a \<open>basestring\<close> whose type is not \<open>unicode\<close>;
  \<^item> \<open>VInt\<close>, \<open>VBool\<close> are numbers and booleans;
  \<^item> \<open>VObj a\<close> is a reference to any other object, a mutable one included: \<open>a\<close> is
    its address (see the heap of the snapshots below);
  \<^item> \<open>VDict m\<close> is a plain mapping, as handed to \<open>update\<close>;
  \<^item> \<open>VLazy field funcs\<close> is a \<open>LazyField\<close> with its attributes \<open>field\<close> and
    \<open>funcs\<close>; its attribute \<open>entry\<close> is the entry that the state passing threads.
\<close>

datatype pyval =
    VNone
  | VStr string
  | VUnicode "nat list"
  | VUnicodeSub "nat list"
  | VInt int
  | VBool bool
  | VObj nat
  | VDict "(key \<times> pyval) list"
  | VLazy key "rid list"

datatype pyerror =
    KeyError key
  | EntryUnicodeError key pyval
  | PluginError
  | TypeError
  | ValueError
  | RuntimeError
  | UnicodeDecodeError
  | OtherError nat

text \<open>Lines written to the module logger \<open>log\<close>, kept in the order written.\<close>

datatype logmsg =
    LogEntrySet key pyval
  | LogInvalidImdb pyval
  | LogEvalLazy key
  | LogDeprecatedLazy
  | LogSnapshotFail key key pyval
  | LogSnapshotOverwrite key pyval

text \<open>
  The class \<open>Entry\<close>: the dict itself (\<open>store\<close>, an association list with one pair
  per key, in the order in which the dict iterates), and the attributes \<open>trace\<close> and
  \<open>snapshots\<close>. The output of the logger is threaded with it in \<open>logged\<close>.
\<close>

record entry =
  store :: "(key \<times> pyval) list"
  trace :: "pyval list"
  snapshots :: "(key \<times> (key \<times> pyval) list) list"
  logged :: "logmsg list"

text \<open>
  A call either returns a value or raises; either way the entry is left in some state,
  which an \<open>except\<close> clause of a caller goes on with.
\<close>

type_synonym 'a res = "(pyerror + 'a) \<times> entry"

text \<open>
  The callbacks are code outside this class: \<open>func(entry, field)\<close> gets the entry
  itself, may write to it, and returns a value or raises.
\<close>

type_synonym resolvers = "rid \<Rightarrow> entry \<Rightarrow> key \<Rightarrow> pyval res"

definition log_add :: "logmsg \<Rightarrow> entry \<Rightarrow> entry" where
  "log_add m e = e\<lparr>logged := logged e @ [m]\<rparr>"

definition dict_get :: "entry \<Rightarrow> key \<Rightarrow> pyval option" where
  "dict_get e k = map_of (store e) k"

definition dict_setitem :: "key \<Rightarrow> pyval \<Rightarrow> entry \<Rightarrow> entry" where
  "dict_setitem k v e = e\<lparr>store := AList.update k v (store e)\<rparr>"

section \<open>LazyField\<close>

text \<open>
  \<open>LazyField.__call__\<close>: the loop over a copy of \<open>funcs\<close>; the first result that is
  not \<open>None\<close> is returned, and falling off the end returns \<open>None\<close>.
\<close>

fun lazy_call :: "resolvers \<Rightarrow> rid list \<Rightarrow> key \<Rightarrow> entry \<Rightarrow> pyval res" where
  "lazy_call env [] field e = (Inr VNone, e)"
| "lazy_call env (func # funcs) field e =
     (case env func e field of
        (Inl err, e') \<Rightarrow> (Inl err, e')
      | (Inr result, e') \<Rightarrow>
          if result \<noteq> VNone then (Inr result, e') else lazy_call env funcs field e')"

section \<open>Reading\<close>

text \<open>\<open>Entry.__getitem__\<close>\<close>

definition getitem :: "resolvers \<Rightarrow> key \<Rightarrow> entry \<Rightarrow> pyval res" where
  "getitem env k e =
     (case dict_get e k of
        None \<Rightarrow> (Inl (KeyError k), e)
      | Some (VLazy field funcs) \<Rightarrow> lazy_call env funcs field (log_add (LogEvalLazy k) e)
      | Some result \<Rightarrow> (Inr result, e))"

text \<open>\<open>Entry.is_lazy\<close>\<close>

definition is_lazy :: "key \<Rightarrow> entry \<Rightarrow> bool" where
  "is_lazy field e = (case dict_get e field of Some (VLazy f fs) \<Rightarrow> True | _ \<Rightarrow> False)"

text \<open>
  \<open>Entry.get(key, default, eval_lazy, lazy)\<close>; only a \<open>KeyError\<close> is caught,
  whoever raised it.
\<close>

definition get :: "resolvers \<Rightarrow> key \<Rightarrow> pyval \<Rightarrow> bool \<Rightarrow> bool option \<Rightarrow> entry \<Rightarrow> pyval res" where
  "get env k dflt eval_lazy lazy e =
     (let e1 = (if lazy \<noteq> None then log_add LogDeprecatedLazy e else e);
          eval_lazy1 = (case lazy of Some b \<Rightarrow> b | None \<Rightarrow> eval_lazy)
      in if \<not> eval_lazy1 \<and> is_lazy k e1 then (Inr dflt, e1)
         else (case getitem env k e1 of
                 (Inl (KeyError k'), e2) \<Rightarrow> (Inr dflt, e2)
               | r \<Rightarrow> r))"

text \<open>\<open>Entry.__contains__\<close>\<close>

definition contains :: "resolvers \<Rightarrow> key \<Rightarrow> entry \<Rightarrow> bool res" where
  "contains env k e =
     (case get env k VNone True None e of
        (Inl err, e') \<Rightarrow> (Inl err, e')
      | (Inr v, e') \<Rightarrow> (Inr (v \<noteq> VNone), e'))"

section \<open>Writing\<close>

definition is_basestring :: "pyval \<Rightarrow> bool" where
  "is_basestring v = (case v of VStr bs \<Rightarrow> True | VUnicode cs \<Rightarrow> True | VUnicodeSub cs \<Rightarrow> True | _ \<Rightarrow> False)"

definition is_unicode_type :: "pyval \<Rightarrow> bool" where
  "is_unicode_type v = (case v of VUnicode cs \<Rightarrow> True | _ \<Rightarrow> False)"

text \<open>
  \<open>unicode(value)\<close> on a string: a byte string is decoded as ASCII, which raises
  \<open>UnicodeDecodeError\<close> (here \<open>None\<close>) when a byte is 128 or more; text is kept.
\<close>

definition decode_ascii :: "string \<Rightarrow> nat list option" where
  "decode_ascii bs =
     (if list_all (\<lambda>c. (of_char c :: nat) < 128) bs then Some (map of_char bs) else None)"

definition to_unicode :: "pyval \<Rightarrow> pyval option" where
  "to_unicode v =
     (case v of
        VStr bs \<Rightarrow> map_option VUnicode (decode_ascii bs)
      | VUnicode cs \<Rightarrow> Some (VUnicode cs)
      | VUnicodeSub cs \<Rightarrow> Some (VUnicode cs)
      | _ \<Rightarrow> None)"

text \<open>
  What the operations take as parameters. \<open>extract_id\<close> and \<open>make_url\<close> of
  \<open>flexget.utils.imdb\<close> are not part of these sources. Of the object at an address
  the operations ask three things that depend on its class: its truth value
  (\<open>object_true\<close>: an empty list is false), what \<open>dict(x)\<close> makes of it
  (\<open>object_items\<close>: the pairs of a mapping or of a sequence of pairs, or the error
  raised), and whether it is a tuple whose length is not 1 (\<open>object_bad_tuple\<close>), for
  which \<open>'... %r' % x\<close> raises \<open>TypeError\<close>.
\<close>

record imdb =
  extract_id :: "pyval \<Rightarrow> pyval"
  make_url :: "pyval \<Rightarrow> pyval"
  object_true :: "nat \<Rightarrow> bool"
  object_items :: "nat \<Rightarrow> pyerror + (key \<times> pyval) list"
  object_bad_tuple :: "nat \<Rightarrow> bool"

text \<open>Truth value of an object, as \<open>if x:\<close> and \<open>not x\<close> take it.\<close>

definition truthy :: "imdb \<Rightarrow> pyval \<Rightarrow> bool" where
  "truthy ext v =
     (case v of
        VNone \<Rightarrow> False
      | VStr bs \<Rightarrow> bs \<noteq> []
      | VUnicode cs \<Rightarrow> cs \<noteq> []
      | VUnicodeSub cs \<Rightarrow> cs \<noteq> []
      | VInt i \<Rightarrow> i \<noteq> 0
      | VBool b \<Rightarrow> b
      | VObj a \<Rightarrow> object_true ext a
      | VDict m \<Rightarrow> m \<noteq> []
      | VLazy f fs \<Rightarrow> True)"

text \<open>
  The error of \<open>raise PluginError('Tried to set title to %r' % value)\<close>: the message
  is formatted first, and that fails for a tuple whose length is not 1.
\<close>

definition title_error :: "imdb \<Rightarrow> pyval \<Rightarrow> pyerror" where
  "title_error ext v =
     (case v of
        VObj a \<Rightarrow> if object_bad_tuple ext a then TypeError else PluginError
      | _ \<Rightarrow> PluginError)"

text \<open>
  \<open>Entry.__setitem__\<close> and \<open>Entry.setdefault\<close>, which call each other: writing
  \<open>url\<close> goes through \<open>setdefault\<close> of \<open>original_url\<close>. The message of the
  \<open>PluginError\<close> for \<open>url\<close> is built from \<open>self.get('title')\<close>, which is evaluated
  before the error is raised.
\<close>

function setitem :: "resolvers \<Rightarrow> imdb \<Rightarrow> key \<Rightarrow> pyval \<Rightarrow> entry \<Rightarrow> unit res"
  and setdefault :: "resolvers \<Rightarrow> imdb \<Rightarrow> key \<Rightarrow> pyval \<Rightarrow> entry \<Rightarrow> pyval res" where
  "setitem env ext k value0 e =
     (case (if is_basestring value0 \<and> \<not> is_unicode_type value0 then to_unicode value0
            else Some value0) of
        None \<Rightarrow> (Inl (EntryUnicodeError k value0), e)
      | Some v \<Rightarrow>
          (case (if k = ''url'' then
                   (if \<not> is_basestring v then
                      (case get env ''title'' VNone True None e of
                         (Inl err, e1) \<Rightarrow> (Inl err, e1)
                       | (Inr t, e1) \<Rightarrow> (Inl PluginError, e1))
                    else
                      (case setdefault env ext ''original_url'' v e of
                         (Inl err, e1) \<Rightarrow> (Inl err, e1)
                       | (Inr r, e1) \<Rightarrow> (Inr (), e1)))
                 else (Inr (), e)) of
             (Inl err, e1) \<Rightarrow> (Inl err, e1)
           | (Inr u, e1) \<Rightarrow>
               if k = ''title'' \<and> \<not> is_basestring v then (Inl (title_error ext v), e1)
               else
                 (case (if k = ''imdb_url'' \<and> is_basestring v then
                          (let imdb_id = extract_id ext v
                           in if truthy ext imdb_id then (make_url ext imdb_id, e1)
                              else (VNone, log_add (LogInvalidImdb v) e1))
                        else (v, e1)) of
                    (v2, e2) \<Rightarrow>
                      (Inr (), dict_setitem k v2 (log_add (LogEntrySet k v2) e2)))))"
| "setdefault env ext k v e =
     (case contains env k e of
        (Inl err, e1) \<Rightarrow> (Inl err, e1)
      | (Inr present, e1) \<Rightarrow>
          (case (if \<not> present then setitem env ext k v e1 else (Inr (), e1)) of
             (Inl err, e2) \<Rightarrow> (Inl err, e2)
           | (Inr u, e2) \<Rightarrow> getitem env k e2))"
  by pat_completeness auto
termination
  by (relation "measure (\<lambda>x. case x of
         Inl (env, ext, k, v, e) \<Rightarrow> (if k = ''url'' then 2 else 0)
       | Inr (env, ext, k, v, e) \<Rightarrow> (if k = ''url'' then 3 else 1))") auto

text \<open>
  \<open>dict(x)\<close>, as \<open>update\<close> calls it on its positional argument: a mapping gives a
  dict with one pair per key (the last value for a key wins); the empty string gives the
  empty dict, any other string fails on its first character; an object gives what its
  class makes of it; and what is not iterable is a \<open>TypeError\<close>.
\<close>

definition dict_of :: "(key \<times> pyval) list \<Rightarrow> (key \<times> pyval) list" where
  "dict_of ps = foldl (\<lambda>d (k, v). AList.update k v d) [] ps"

definition dict_of_value :: "imdb \<Rightarrow> pyval \<Rightarrow> pyerror + (key \<times> pyval) list" where
  "dict_of_value ext x =
     (case x of
        VDict m \<Rightarrow> Inr (dict_of m)
      | VObj a \<Rightarrow> (case object_items ext a of Inl err \<Rightarrow> Inl err | Inr ps \<Rightarrow> Inr (dict_of ps))
      | VStr bs \<Rightarrow> if bs = [] then Inr [] else Inl ValueError
      | VUnicode cs \<Rightarrow> if cs = [] then Inr [] else Inl ValueError
      | VUnicodeSub cs \<Rightarrow> if cs = [] then Inr [] else Inl ValueError
      | _ \<Rightarrow> Inl TypeError)"

text \<open>The loop \<open>for key in other: self[key] = other[key]\<close>.\<close>

fun set_all :: "resolvers \<Rightarrow> imdb \<Rightarrow> (key \<times> pyval) list \<Rightarrow> entry \<Rightarrow> unit res" where
  "set_all env ext [] e = (Inr (), e)"
| "set_all env ext ((k, v) # other) e =
     (case setitem env ext k v e of
        (Inl err, e1) \<Rightarrow> (Inl err, e1)
      | (Inr u, e1) \<Rightarrow> set_all env ext other e1)"

text \<open>\<open>Entry.update(*args, **kwargs)\<close>\<close>

definition update :: "resolvers \<Rightarrow> imdb \<Rightarrow> pyval list \<Rightarrow> (key \<times> pyval) list \<Rightarrow> entry \<Rightarrow> unit res" where
  "update env ext args kwargs e =
     (case (if args \<noteq> [] then
              (if length args > 1 then (Inl TypeError, e)
               else (case dict_of_value ext (hd args) of
                       Inl err \<Rightarrow> (Inl err, e)
                     | Inr other \<Rightarrow> set_all env ext other e))
            else (Inr (), e)) of
        (Inl err, e1) \<Rightarrow> (Inl err, e1)
      | (Inr u, e1) \<Rightarrow> set_all env ext kwargs e1)"

text \<open>
  \<open>Entry.__init__(*args, **kwargs)\<close>: the new dict is empty, and everything goes
  through \<open>update\<close>. The output of the logger so far is \<open>lg\<close>. With two positional
  arguments the keys \<open>title\<close> and \<open>url\<close> are put into the dict \<open>kwargs\<close>; the
  order in which that dict then iterates is the interpreter's (CPython 2 hashes
  \<open>url\<close> before \<open>title\<close>), so it is the parameter \<open>iter_order\<close>.
\<close>

definition new_entry :: "logmsg list \<Rightarrow> entry" where
  "new_entry lg = \<lparr>store = [], trace = [], snapshots = [], logged = lg\<rparr>"

definition init ::
  "resolvers \<Rightarrow> imdb \<Rightarrow> ((key \<times> pyval) list \<Rightarrow> (key \<times> pyval) list)
     \<Rightarrow> pyval list \<Rightarrow> (key \<times> pyval) list \<Rightarrow> logmsg list \<Rightarrow> unit res" where
  "init env ext iter_order args kwargs lg =
     (let self = new_entry lg;
          kwargs1 = (if length args = 2
                     then iter_order
                            (AList.update ''url'' (args ! 1) (AList.update ''title'' (args ! 0) kwargs))
                     else kwargs);
          args1 = (if length args = 2 then [] else args)
      in update env ext args1 kwargs1 self)"

section \<open>Lazy fields of an entry\<close>

text \<open>A change made in place to the list \<open>funcs\<close> of the lazy field stored under a key.\<close>

definition funcs_map :: "key \<Rightarrow> (rid list \<Rightarrow> rid list) \<Rightarrow> entry \<Rightarrow> entry" where
  "funcs_map field g e =
     (case dict_get e field of
        Some (VLazy f fs) \<Rightarrow> dict_setitem field (VLazy f (g fs)) e
      | _ \<Rightarrow> e)"

definition lazy_funcs :: "key \<Rightarrow> entry \<Rightarrow> rid list" where
  "lazy_funcs field e = (case dict_get e field of Some (VLazy f fs) \<Rightarrow> fs | _ \<Rightarrow> [])"

text \<open>\<open>Entry.register_lazy_fields\<close>\<close>

fun register_lazy_fields :: "resolvers \<Rightarrow> imdb \<Rightarrow> key list \<Rightarrow> rid \<Rightarrow> entry \<Rightarrow> unit res" where
  "register_lazy_fields env ext [] func e = (Inr (), e)"
| "register_lazy_fields env ext (field # flds) func e =
     (if is_lazy field e then
        register_lazy_fields env ext flds func (funcs_map field (\<lambda>fs. fs @ [func]) e)
      else
        (case get env field VNone False None e of
           (Inl err, e1) \<Rightarrow> (Inl err, e1)
         | (Inr v, e1) \<Rightarrow>
             if \<not> truthy ext v then
               (case setitem env ext field (VLazy field [func]) e1 of
                  (Inl err, e2) \<Rightarrow> (Inl err, e2)
                | (Inr u, e2) \<Rightarrow> register_lazy_fields env ext flds func e2)
             else register_lazy_fields env ext flds func e1))"

text \<open>\<open>Entry.unregister_lazy_fields\<close>: the loop, with the counter \<open>removed\<close>.\<close>

fun unregister_loop :: "resolvers \<Rightarrow> imdb \<Rightarrow> key list \<Rightarrow> rid \<Rightarrow> int \<Rightarrow> entry \<Rightarrow> int res" where
  "unregister_loop env ext [] func removed e = (Inr removed, e)"
| "unregister_loop env ext (field # flds) func removed e =
     (if is_lazy field e then
        (case (if func \<in> set (lazy_funcs field e)
               then (removed + 1, funcs_map field (remove1 func) e)
               else (removed, e)) of
           (removed1, e1) \<Rightarrow>
             if lazy_funcs field e1 = [] then
               (case setitem env ext field VNone e1 of
                  (Inl err, e2) \<Rightarrow> (Inl err, e2)
                | (Inr u, e2) \<Rightarrow> unregister_loop env ext flds func removed1 e2)
             else unregister_loop env ext flds func removed1 e1)
      else unregister_loop env ext flds func removed e)"

definition unregister_lazy_fields :: "resolvers \<Rightarrow> imdb \<Rightarrow> key list \<Rightarrow> rid \<Rightarrow> entry \<Rightarrow> int res" where
  "unregister_lazy_fields env ext flds func e = unregister_loop env ext flds func 0 e"

section \<open>Display\<close>

text \<open>
  The operator \<open>'%s | %s' % (t, u)\<close>. A text argument makes the result text, and then a
  byte string among the arguments is decoded as ASCII, which can fail; with no text
  argument the result is a byte string. \<open>str_of\<close> is \<open>str(x)\<close> for an \<open>x\<close> that is
  not a string, which depends on the class of \<open>x\<close>.
\<close>

definition arg_text :: "(pyval \<Rightarrow> string) \<Rightarrow> pyval \<Rightarrow> string + nat list" where
  "arg_text str_of v =
     (case v of
        VUnicode cs \<Rightarrow> Inr cs
      | VUnicodeSub cs \<Rightarrow> Inr cs
      | VStr bs \<Rightarrow> Inl bs
      | _ \<Rightarrow> Inl (str_of v))"

definition as_text :: "string + nat list \<Rightarrow> nat list option" where
  "as_text x = (case x of Inl bs \<Rightarrow> decode_ascii bs | Inr cs \<Rightarrow> Some cs)"

definition format_title_url :: "(pyval \<Rightarrow> string) \<Rightarrow> pyval \<Rightarrow> pyval \<Rightarrow> pyerror + pyval" where
  "format_title_url str_of t u =
     (case (arg_text str_of t, arg_text str_of u) of
        (Inl a, Inl b) \<Rightarrow> Inr (VStr (a @ '' | '' @ b))
      | (x, y) \<Rightarrow>
          (case (as_text x, as_text y) of
             (Some a, Some b) \<Rightarrow> Inr (VUnicode (a @ [32, 124, 32] @ b))
           | _ \<Rightarrow> Inl UnicodeDecodeError))"

text \<open>\<open>Entry.safe_str\<close>: \<open>self['title']\<close> is read first, then \<open>self['url']\<close>.\<close>

definition safe_str :: "resolvers \<Rightarrow> (pyval \<Rightarrow> string) \<Rightarrow> entry \<Rightarrow> pyval res" where
  "safe_str env str_of e =
     (case getitem env ''title'' e of
        (Inl err, e1) \<Rightarrow> (Inl err, e1)
      | (Inr t, e1) \<Rightarrow>
          (case getitem env ''url'' e1 of
             (Inl err, e2) \<Rightarrow> (Inl err, e2)
           | (Inr u, e2) \<Rightarrow> (format_title_url str_of t u, e2)))"

section \<open>Snapshots\<close>

text \<open>
  Mutable objects live in a heap: \<open>VObj a\<close> refers to the object at address \<open>a\<close>,
  whose contents are the values it holds. \<open>copy.deepcopy\<close> belongs to the standard
  library and is a parameter: it is given the heap and a value, allocates the copy, and
  returns it or raises. A lazy field is kept in the store as a value, with its list
  \<open>funcs\<close>; the sharing of \<open>LazyField\<close> objects is not part of this model, nor
  are the log lines written while the entry a lazy field refers to is copied with it.
\<close>

type_synonym addr = nat
type_synonym heap = "(addr \<times> pyval list) list"
type_synonym copier = "heap \<Rightarrow> pyval \<Rightarrow> (pyerror + pyval) \<times> heap"

text \<open>
  The loop of \<open>take_snapshot\<close> over \<open>self.iteritems()\<close>. The dict is read while the
  loop runs (position \<open>i\<close> of the store as it is now), and the iterator raises
  \<open>RuntimeError\<close> when the size of the dict is no longer the \<open>n\<close> it started with,
  which it checks each time it is asked for an item, the last time included. Only a
  \<open>TypeError\<close> of the copy is caught; its warning reads \<open>self['title']\<close>.
\<close>

fun snapshot_fields ::
  "resolvers \<Rightarrow> copier \<Rightarrow> key \<Rightarrow> nat \<Rightarrow> nat list \<Rightarrow> (key \<times> pyval) list \<Rightarrow> heap \<Rightarrow> entry
     \<Rightarrow> (key \<times> pyval) list res \<times> heap" where
  "snapshot_fields env dc name n [] snapshot h e =
     (if length (store e) \<noteq> n then ((Inl RuntimeError, e), h) else ((Inr snapshot, e), h))"
| "snapshot_fields env dc name n (i # is) snapshot h e =
     (if length (store e) \<noteq> n then ((Inl RuntimeError, e), h)
      else
        (case store e ! i of
           (field, v) \<Rightarrow>
             (case dc h v of
                (Inr c, h1) \<Rightarrow>
                  snapshot_fields env dc name n is (AList.update field c snapshot) h1 e
              | (Inl TypeError, h1) \<Rightarrow>
                  (case getitem env ''title'' e of
                     (Inl err, e1) \<Rightarrow> ((Inl err, e1), h1)
                   | (Inr t, e1) \<Rightarrow>
                       snapshot_fields env dc name n is snapshot h1
                         (log_add (LogSnapshotFail name field t) e1))
              | (Inl err, h1) \<Rightarrow> ((Inl err, e), h1))))"

text \<open>\<open>Entry.take_snapshot\<close>\<close>

definition take_snapshot :: "resolvers \<Rightarrow> copier \<Rightarrow> key \<Rightarrow> heap \<Rightarrow> entry \<Rightarrow> unit res \<times> heap" where
  "take_snapshot env dc name h e =
     (case snapshot_fields env dc name (length (store e)) [0..<length (store e)] [] h e of
        ((Inl err, e1), h1) \<Rightarrow> ((Inl err, e1), h1)
      | ((Inr snapshot, e1), h1) \<Rightarrow>
          if snapshot \<noteq> [] then
            (case (if name \<in> fst ` set (snapshots e1) then
                     (case getitem env ''title'' e1 of
                        (Inl err, e2) \<Rightarrow> (Inl err, e2)
                      | (Inr t, e2) \<Rightarrow> (Inr (), log_add (LogSnapshotOverwrite name t) e2))
                   else (Inr (), e1)) of
               (Inl err, e2) \<Rightarrow> ((Inl err, e2), h1)
             | (Inr u, e2) \<Rightarrow>
                 ((Inr (), e2\<lparr>snapshots := AList.update name snapshot (snapshots e2)\<rparr>), h1))
          else ((Inr (), e1), h1))"

section \<open>Notions of the specification\<close>

text \<open>
  ``Every resolver of the list, called in this order, returned no result'': the entry
  each call leaves goes into the next one, and the result is the entry left by the last.
\<close>

fun all_empty :: "resolvers \<Rightarrow> rid list \<Rightarrow> key \<Rightarrow> entry \<Rightarrow> entry option" where
  "all_empty env [] field e = Some e"
| "all_empty env (func # funcs) field e =
     (case env func e field of
        (Inr VNone, e') \<Rightarrow> all_empty env funcs field e'
      | _ \<Rightarrow> None)"

text \<open>
  The addresses a value mentions, and the objects that can be reached from a set of
  addresses by following the references held in the heap.
\<close>

fun refs :: "pyval \<Rightarrow> addr set" where
  "refs (VObj a) = {a}"
| "refs (VDict m) = (\<Union>p\<in>set m. refs (snd p))"
| "refs v = {}"

inductive_set reach :: "heap \<Rightarrow> addr set \<Rightarrow> addr set" for h :: heap and S :: "addr set" where
  base: "a \<in> S \<Longrightarrow> a \<in> reach h S"
| step: "a \<in> reach h S \<Longrightarrow> map_of h a = Some vs \<Longrightarrow> v \<in> set vs \<Longrightarrow> b \<in> refs v
           \<Longrightarrow> b \<in> reach h S"

text \<open>
  Two properties a \<open>deepcopy\<close> can have. It changes no object that exists
  (\<open>deepcopy_frame\<close>). And it really copies the values of a set \<open>V\<close>
  (\<open>really_copies\<close>): the copy of such a value is made of new objects only, all of
  them allocated. The library's \<open>deepcopy\<close> does not copy everything: a function, a
  class, or an object whose \<open>__deepcopy__\<close> returns the object itself comes back as it
  is, also inside a copied container, so \<open>V\<close> is the values that hold none of these.
\<close>

definition deepcopy_frame :: "copier \<Rightarrow> bool" where
  "deepcopy_frame dc \<longleftrightarrow>
     (\<forall>h v r h1. dc h v = (r, h1) \<longrightarrow> (\<forall>a\<in>fst ` set h. map_of h1 a = map_of h a))"

definition really_copies :: "copier \<Rightarrow> pyval set \<Rightarrow> bool" where
  "really_copies dc V \<longleftrightarrow>
     (\<forall>h v c h1. v \<in> V \<and> dc h v = (Inr c, h1) \<longrightarrow>
        reach h1 (refs c) \<inter> fst ` set h = {} \<and> reach h1 (refs c) \<subseteq> fst ` set h1)"

text \<open>
  The state of a snapshot while it is taken: every pair in it was made from a pair
  \<open>(field, v)\<close> of the items \<open>S\<close>, and when \<open>v\<close> is one of the values \<open>V\<close> that are
  really copied, nothing that can be reached from the captured value is an object at
  one of the addresses \<open>D\<close>, and all of it is allocated.
\<close>

definition isolated ::
  "addr set \<Rightarrow> pyval set \<Rightarrow> (key \<times> pyval) set \<Rightarrow> heap \<Rightarrow> (key \<times> pyval) list \<Rightarrow> bool" where
  "isolated D V S h snapshot \<longleftrightarrow>
     (\<forall>p\<in>set snapshot. \<exists>v. (fst p, v) \<in> S \<and>
        (v \<in> V \<longrightarrow> reach h (refs (snd p)) \<inter> D = {}
                   \<and> reach h (refs (snd p)) \<subseteq> fst ` set h))"

text \<open>
  What \<open>unregister_lazy_fields\<close> is to leave under a key that the list names \<open>c\<close>
  times: each naming takes one occurrence of the resolver out of the list of a lazy
  field, and a list that has become empty is replaced by \<open>None\<close>; and how many
  occurrences that takes out.
\<close>

definition unregistered :: "nat \<Rightarrow> rid \<Rightarrow> pyval \<Rightarrow> pyval" where
  "unregistered c func v =
     (case v of
        VLazy f fs \<Rightarrow>
          if c = 0 then v
          else if (remove1 func ^^ c) fs = [] then VNone
          else VLazy f ((remove1 func ^^ c) fs)
      | _ \<Rightarrow> v)"

definition removed_for :: "nat \<Rightarrow> rid \<Rightarrow> pyval option \<Rightarrow> nat" where
  "removed_for c func vo =
     (case vo of Some (VLazy f fs) \<Rightarrow> min c (count_list fs func) | _ \<Rightarrow> 0)"

text \<open>
  ``Constructing empty and writing \<open>title = t\<close> then \<open>url = u\<close>'', the second write
  only when the first one is accepted.
\<close>

definition write_title_url :: "resolvers \<Rightarrow> imdb \<Rightarrow> pyval \<Rightarrow> pyval \<Rightarrow> entry \<Rightarrow> unit res" where
  "write_title_url env ext t u e =
     (case setitem env ext ''title'' t e of
        (Inl err, e1) \<Rightarrow> (Inl err, e1)
      | (Inr x, e1) \<Rightarrow> setitem env ext ''url'' u e1)"

section \<open>Example inputs\<close>

definition empty_entry :: entry where
  "empty_entry = \<lparr>store = [], trace = [], snapshots = [], logged = []\<rparr>"

text \<open>Resolvers that only compute: number 0 finds nothing, number \<open>r\<close> finds \<open>r\<close>.\<close>

definition const_resolvers :: resolvers where
  "const_resolvers r e field = (Inr (if r = 0 then VNone else VInt (int r)), e)"

text \<open>
  A resolver that populates the entry, as the docstring of \<open>LazyField\<close> says the
  callbacks do: it assigns \<open>entry[field] = 1\<close> and returns that value.
\<close>

definition populating_resolvers :: resolvers where
  "populating_resolvers r e field =
     (Inr (VInt 1), dict_setitem field (VInt 1) (log_add (LogEntrySet field (VInt 1)) e))"

text \<open>
  An \<open>extract_id\<close> that finds an identifier in no string; every object is true, is
  not iterable and is no tuple.
\<close>

definition no_imdb :: imdb where
  "no_imdb = \<lparr>extract_id = (\<lambda>v. VNone), make_url = (\<lambda>v. v),
     object_true = (\<lambda>a. True), object_items = (\<lambda>a. Inl TypeError),
     object_bad_tuple = (\<lambda>a. False)\<rparr>"

definition lazy_entry :: entry where
  "lazy_entry = \<lparr>store = [(''x'', VLazy ''x'' [0, 1, 2])], trace = [], snapshots = [], logged = []\<rparr>"

definition two_lazy_entry :: entry where
  "two_lazy_entry = \<lparr>store = [(''x'', VLazy ''x'' [0, 1, 2]), (''y'', VLazy ''y'' [1])],
     trace = [], snapshots = [], logged = []\<rparr>"

text \<open>
  A \<open>deepcopy\<close> for the examples: a number, a string or \<open>None\<close> is its own copy; an
  object that holds only such values is copied to a new address; anything else (an
  object that is not data in the heap, such as a generator) is a \<open>TypeError\<close>.
\<close>

definition fresh :: "heap \<Rightarrow> addr" where
  "fresh h = Suc (fold max (map fst h) 0)"

definition atomic :: "pyval \<Rightarrow> bool" where
  "atomic v = (case v of VObj a \<Rightarrow> False | VDict m \<Rightarrow> False | _ \<Rightarrow> True)"

definition example_deepcopy :: copier where
  "example_deepcopy h v =
     (case v of
        VObj a \<Rightarrow>
          (case map_of h a of
             None \<Rightarrow> (Inl TypeError, h)
           | Some vs \<Rightarrow>
               if list_all atomic vs then (Inr (VObj (fresh h)), h @ [(fresh h, vs)])
               else (Inl TypeError, h))
      | VDict m \<Rightarrow> (Inl TypeError, h)
      | _ \<Rightarrow> (Inr v, h))"

text \<open>
  What \<open>deepcopy\<close> does to a function or a class, whatever attributes it has: it
  returns the object itself.
\<close>

definition deepcopy_as_is :: copier where
  "deepcopy_as_is h v = (Inr v, h)"

text \<open>Entries that hold an object \<open>deepcopy\<close> refuses, without and with a title.\<close>

definition untitled_entry :: entry where
  "untitled_entry = \<lparr>store = [(''x'', VObj 7)], trace = [], snapshots = [], logged = []\<rparr>"

definition mixed_entry :: entry where
  "mixed_entry = \<lparr>store = [(''title'', VUnicode [84]), (''x'', VObj 7), (''y'', VInt 3)],
     trace = [], snapshots = [], logged = []\<rparr>"

text \<open>An entry that holds an object, at address 0 of the heap.\<close>

definition object_entry :: entry where
  "object_entry = \<lparr>store = [(''x'', VObj 0)], trace = [], snapshots = [], logged = []\<rparr>"

text \<open>A \<open>str\<close> for the values that are not strings, and an entry with a title only.\<close>

definition example_str :: "pyval \<Rightarrow> string" where
  "example_str v = ''None''"

definition titled_entry :: entry where
  "titled_entry = \<lparr>store = [(''title'', VUnicode [84])], trace = [], snapshots = [], logged = []\<rparr>"

section \<open>Lazy evaluation\<close>

lemma all_empty_step:
  "all_empty env (f # fs) k e = Some e1
     \<Longrightarrow> \<exists>e'. env f e k = (Inr VNone, e') \<and> all_empty env fs k e' = Some e1"
  by (auto split: prod.splits sum.splits pyval.splits)

lemma lazy_call_all_empty:
  "all_empty env funcs field e = Some e1 \<Longrightarrow> lazy_call env funcs field e = (Inr VNone, e1)"
proof (induction funcs arbitrary: e)
  case Nil
  then show ?case by simp
next
  case (Cons f fs)
  from all_empty_step [OF Cons.prems] obtain e' where
    st: "env f e field = (Inr VNone, e')" and rest: "all_empty env fs field e' = Some e1"
    by blast
  show ?case using st Cons.IH [OF rest] by simp
qed

lemma lazy_call_first:
  "all_empty env pre field e = Some e1 \<Longrightarrow> env func e1 field = (Inr result, e2)
     \<Longrightarrow> result \<noteq> VNone
     \<Longrightarrow> lazy_call env (pre @ func # post) field e = (Inr result, e2)"
proof (induction pre arbitrary: e)
  case Nil
  then show ?case by simp
next
  case (Cons f fs)
  from all_empty_step [OF Cons.prems(1)] obtain e' where
    st: "env f e field = (Inr VNone, e')" and rest: "all_empty env fs field e' = Some e1"
    by blast
  show ?case using st Cons.IH [OF rest Cons.prems(2,3)] by simp
qed

lemma register_on_lazy:
  "dict_get e k = Some (VLazy f fs) \<Longrightarrow>
   \<exists>e'. register_lazy_fields env ext [k] func e = (Inr (), e')
        \<and> dict_get e' k = Some (VLazy f (fs @ [func]))"
  by (auto simp: is_lazy_def funcs_map_def dict_get_def dict_setitem_def update_conv')

text \<open>
  C3. Calling a lazy field tries its resolvers in the order of the list \<open>funcs\<close>, which
  is the order of registration since \<open>register_lazy_fields\<close> appends to it: when all
  of them return \<open>None\<close> the call returns \<open>None\<close> and raises nothing; when the
  resolvers before \<open>func\<close> return \<open>None\<close> and \<open>func\<close> returns something else, that is
  the result, and the entry is as \<open>func\<close> left it (no later resolver is called).
\<close>

theorem lazy_call_first_nonempty:
  "(all_empty env funcs field e = Some e1 \<longrightarrow> lazy_call env funcs field e = (Inr VNone, e1))
   \<and> (all_empty env pre field e = Some e1 \<and> env func e1 field = (Inr result, e2)
        \<and> result \<noteq> VNone
      \<longrightarrow> lazy_call env (pre @ func # post) field e = (Inr result, e2))
   \<and> (dict_get e k = Some (VLazy f fs)
      \<longrightarrow> (\<exists>e'. register_lazy_fields env ext [k] func e = (Inr (), e')
               \<and> dict_get e' k = Some (VLazy f (fs @ [func]))))"
  using lazy_call_all_empty [of env funcs field e e1]
    lazy_call_first [of env pre field e e1 func result e2 post]
    register_on_lazy [of e k f fs env ext func]
  by blast

theorem lazy_call_first_nonempty_witness:
  "all_empty const_resolvers [0, 0] ''x'' lazy_entry = Some lazy_entry
   \<and> lazy_call const_resolvers [0, 0] ''x'' lazy_entry = (Inr VNone, lazy_entry)
   \<and> all_empty const_resolvers [0] ''x'' lazy_entry = Some lazy_entry
   \<and> const_resolvers 1 lazy_entry ''x'' = (Inr (VInt 1), lazy_entry)
   \<and> lazy_call const_resolvers ([0] @ 1 # [2]) ''x'' lazy_entry = (Inr (VInt 1), lazy_entry)
   \<and> dict_get lazy_entry ''x'' = Some (VLazy ''x'' [0, 1, 2])
   \<and> (\<exists>e'. register_lazy_fields const_resolvers no_imdb [''x''] 1 lazy_entry = (Inr (), e')
            \<and> dict_get e' ''x'' = Some (VLazy ''x'' ([0, 1, 2] @ [1])))"
proof -
  let ?e = lazy_entry
  have a: "all_empty const_resolvers [0, 0] ''x'' ?e = Some ?e"
    by (simp add: const_resolvers_def)
  have b: "all_empty const_resolvers [0] ''x'' ?e = Some ?e"
    by (simp add: const_resolvers_def)
  have c: "const_resolvers 1 ?e ''x'' = (Inr (VInt 1), ?e)"
    by (simp add: const_resolvers_def)
  have d: "dict_get ?e ''x'' = Some (VLazy ''x'' [0, 1, 2])"
    by (simp add: lazy_entry_def dict_get_def)
  have n: "VInt 1 \<noteq> VNone" by simp
  note t = lazy_call_first_nonempty [where env = const_resolvers and field = "''x''"
      and e = ?e and ?e1.0 = ?e and ?e2.0 = ?e and funcs = "[0, 0]" and pre = "[0]"
      and func = 1 and result = "VInt 1" and post = "[2]" and k = "''x''" and f = "''x''"
      and fs = "[0, 1, 2]" and ext = no_imdb]
  show ?thesis using a b c d n t by blast
qed

lemma lazy_call_store:
  "(\<And>func e'. func \<in> set funcs \<Longrightarrow> store (snd (env func e' field)) = store e')
   \<Longrightarrow> store (snd (lazy_call env funcs field e)) = store e"
proof (induction funcs arbitrary: e)
  case Nil
  then show ?case by simp
next
  case (Cons f fs)
  have hd: "store (snd (env f e field)) = store e" using Cons.prems by simp
  have tl: "\<And>e1. store (snd (lazy_call env fs field e1)) = store e1"
    using Cons.IH Cons.prems by simp
  show ?case
  proof (cases "env f e field")
    case (Pair r e1)
    then show ?thesis using hd tl [of e1] by (cases r) auto
  qed
qed

text \<open>
  C4, as the claim states it, fails: the resolver is handed the entry, and one that
  populates the field (what the lookups are for) leaves a concrete value where the lazy
  field was, so the key is no longer lazy after a plain read.
\<close>

theorem getitem_lazy_counterexample:
  "is_lazy ''x'' lazy_entry
   \<and> fst (getitem populating_resolvers ''x'' lazy_entry) = Inr (VInt 1)
   \<and> dict_get (snd (getitem populating_resolvers ''x'' lazy_entry)) ''x'' = Some (VInt 1)
   \<and> \<not> is_lazy ''x'' (snd (getitem populating_resolvers ''x'' lazy_entry))"
  by (simp add: is_lazy_def lazy_entry_def dict_get_def getitem_def populating_resolvers_def
      dict_setitem_def log_add_def)

text \<open>
  C4, amended. When the resolvers of the lazy field stored under a key do not write to
  the dict, a plain read of the key leaves the dict as it was: the same lazy field is
  still stored under the key, and \<open>is_lazy\<close> is still true, on every read.
\<close>

theorem getitem_lazy_store_unchanged:
  assumes "dict_get e k = Some (VLazy f fs)"
    and "\<forall>func\<in>set fs. \<forall>e'. store (snd (env func e' f)) = store e'"
  shows "store (snd (getitem env k e)) = store e
         \<and> dict_get (snd (getitem env k e)) k = Some (VLazy f fs)
         \<and> is_lazy k (snd (getitem env k e))"
proof -
  have "store (snd (lazy_call env fs f (log_add (LogEvalLazy k) e)))
        = store (log_add (LogEvalLazy k) e)"
    using assms(2) by (intro lazy_call_store) simp
  then have st: "store (snd (getitem env k e)) = store e"
    using assms(1) by (simp add: getitem_def log_add_def)
  then show ?thesis using assms(1) by (simp add: dict_get_def is_lazy_def)
qed

theorem getitem_lazy_store_unchanged_witness:
  "dict_get lazy_entry ''x'' = Some (VLazy ''x'' [0, 1, 2])
   \<and> store (snd (getitem const_resolvers ''x'' lazy_entry)) = store lazy_entry
   \<and> is_lazy ''x'' (snd (getitem const_resolvers ''x'' lazy_entry))"
proof -
  have a: "dict_get lazy_entry ''x'' = Some (VLazy ''x'' [0, 1, 2])"
    by (simp add: lazy_entry_def dict_get_def)
  have b: "\<forall>func\<in>set [0, 1, 2]. \<forall>e'. store (snd (const_resolvers func e' ''x'')) = store e'"
    by (simp add: const_resolvers_def)
  show ?thesis
    using a b getitem_lazy_store_unchanged [where env = const_resolvers, OF a b] by simp
qed

section \<open>Membership\<close>

lemma contains_eq:
  "contains env k e =
     (case getitem env k e of
        (Inr v, e') \<Rightarrow> (Inr (v \<noteq> VNone), e')
      | (Inl (KeyError k'), e') \<Rightarrow> (Inr False, e')
      | (Inl err, e') \<Rightarrow> (Inl err, e'))"
  by (auto simp: contains_def get_def split: prod.splits sum.splits pyerror.splits)

text \<open>
  C5. \<open>field in entry\<close> is decided by reading the field: it is true exactly when the
  read returns a value that is not \<open>None\<close>; it is false exactly when the read returns
  \<open>None\<close> or raises \<open>KeyError\<close>, so a key that is not stored and a key stored with
  \<open>None\<close> both count as absent; any other error of the read is raised by the test. It
  leaves the entry as that read leaves it, so the resolvers of a lazy field are called
  by the test.
\<close>

theorem contains_iff_nonempty:
  "(fst (contains env k e) = Inr True \<longleftrightarrow> (\<exists>v. fst (getitem env k e) = Inr v \<and> v \<noteq> VNone))
   \<and> snd (contains env k e) = snd (getitem env k e)
   \<and> (dict_get e k = Some VNone \<longrightarrow> contains env k e = (Inr False, e))
   \<and> (dict_get e k = Some (VLazy f fs) \<longrightarrow>
        snd (contains env k e) = snd (lazy_call env fs f (log_add (LogEvalLazy k) e)))
   \<and> contains env k e =
        (case getitem env k e of
           (Inr v, e') \<Rightarrow> (Inr (v \<noteq> VNone), e')
         | (Inl (KeyError k'), e') \<Rightarrow> (Inr False, e')
         | (Inl err, e') \<Rightarrow> (Inl err, e'))
   \<and> (fst (contains env k e) = Inr False \<longleftrightarrow>
          fst (getitem env k e) = Inr VNone \<or> (\<exists>k'. fst (getitem env k e) = Inl (KeyError k')))
   \<and> (dict_get e k = None \<longrightarrow> contains env k e = (Inr False, e))"
proof -
  have old: "(fst (contains env k e) = Inr True
               \<longleftrightarrow> (\<exists>v. fst (getitem env k e) = Inr v \<and> v \<noteq> VNone))
   \<and> snd (contains env k e) = snd (getitem env k e)
   \<and> (dict_get e k = Some VNone \<longrightarrow> contains env k e = (Inr False, e))
   \<and> (dict_get e k = Some (VLazy f fs) \<longrightarrow>
        snd (contains env k e) = snd (lazy_call env fs f (log_add (LogEvalLazy k) e)))"
    by (auto simp: contains_def get_def getitem_def
        split: prod.splits sum.splits pyerror.splits option.splits pyval.splits)
  have neg: "fst (contains env k e) = Inr False \<longleftrightarrow>
          fst (getitem env k e) = Inr VNone \<or> (\<exists>k'. fst (getitem env k e) = Inl (KeyError k'))"
    unfolding contains_eq by (auto split: prod.splits sum.splits pyerror.splits)
  have missing: "dict_get e k = None \<longrightarrow> contains env k e = (Inr False, e)"
    unfolding contains_eq by (simp add: getitem_def)
  show ?thesis using old contains_eq [of env k e] neg missing by blast
qed

theorem contains_iff_nonempty_witness:
  "dict_get (dict_setitem ''y'' VNone lazy_entry) ''y'' = Some VNone
   \<and> contains populating_resolvers ''y'' (dict_setitem ''y'' VNone lazy_entry)
       = (Inr False, dict_setitem ''y'' VNone lazy_entry)
   \<and> dict_get (dict_setitem ''y'' VNone lazy_entry) ''x'' = Some (VLazy ''x'' [0, 1, 2])
   \<and> snd (contains populating_resolvers ''x'' (dict_setitem ''y'' VNone lazy_entry))
       = snd (lazy_call populating_resolvers [0, 1, 2] ''x''
               (log_add (LogEvalLazy ''x'') (dict_setitem ''y'' VNone lazy_entry)))
   \<and> dict_get (dict_setitem ''y'' VNone lazy_entry) ''nope'' = None
   \<and> contains populating_resolvers ''nope'' (dict_setitem ''y'' VNone lazy_entry)
       = (Inr False, dict_setitem ''y'' VNone lazy_entry)"
proof -
  let ?e = "dict_setitem ''y'' VNone lazy_entry"
  have a: "dict_get ?e ''y'' = Some VNone"
    by (simp add: lazy_entry_def dict_get_def dict_setitem_def)
  have b: "dict_get ?e ''x'' = Some (VLazy ''x'' [0, 1, 2])"
    by (simp add: lazy_entry_def dict_get_def dict_setitem_def)
  have c: "dict_get ?e ''nope'' = None"
    by (simp add: lazy_entry_def dict_get_def dict_setitem_def)
  show ?thesis
    using a b c
      contains_iff_nonempty [where env = populating_resolvers and k = "''y''" and e = ?e]
      contains_iff_nonempty [where env = populating_resolvers and k = "''x''" and e = ?e
        and f = "''x''" and fs = "[0, 1, 2]"]
      contains_iff_nonempty [where env = populating_resolvers and k = "''nope''" and e = ?e]
    by blast
qed

section \<open>The enforced write\<close>

lemma to_unicode_result:
  "to_unicode v = Some u \<Longrightarrow> is_basestring u \<and> is_unicode_type u \<and> u \<noteq> VNone \<and> (\<exists>cs. u = VUnicode cs)"
  by (auto simp: to_unicode_def is_basestring_def is_unicode_type_def split: pyval.splits)

lemma convert_eq:
  "is_basestring v \<Longrightarrow> to_unicode v = Some u \<Longrightarrow>
   (if is_basestring v \<and> \<not> is_unicode_type v then to_unicode v else Some v) = Some u"
  by (auto simp: to_unicode_def is_basestring_def is_unicode_type_def split: pyval.splits)

lemma dict_get_setitem: "dict_get (dict_setitem k v e) k' = (if k' = k then Some v else dict_get e k')"
  by (simp add: dict_get_def dict_setitem_def update_conv')

lemma dict_get_log_add [simp]: "dict_get (log_add m e) k = dict_get e k"
  by (simp add: dict_get_def log_add_def)

lemma setitem_plain:
  assumes "is_basestring v" "to_unicode v = Some u" "k \<noteq> ''imdb_url''" "k \<noteq> ''url''"
  shows "setitem env ext k v e = (Inr (), dict_setitem k u (log_add (LogEntrySet k u) e))"
  using assms to_unicode_result [OF assms(2)] convert_eq [OF assms(1,2)]
  by simp

lemma setdefault_original_url:
  assumes "is_basestring v" "to_unicode v = Some u" "\<not> is_lazy ''original_url'' e"
  shows "\<exists>e1 r. setdefault env ext ''original_url'' v e = (Inr r, e1)
      \<and> dict_get e1 ''original_url'' = (if dict_get e ''original_url'' = None \<or> dict_get e ''original_url'' = Some VNone then Some u else dict_get e ''original_url'')
      \<and> (\<forall>k'. k' \<noteq> ''original_url'' \<longrightarrow> dict_get e1 k' = dict_get e k')"
proof (cases "dict_get e ''original_url'' = None \<or> dict_get e ''original_url'' = Some VNone")
  case True
  then have c: "contains env ''original_url'' e = (Inr False, e)"
    by (auto simp: contains_def get_def getitem_def is_lazy_def)
  obtain cs where u: "u = VUnicode cs" using to_unicode_result [OF assms(2)] by blast
  show ?thesis using True c u setitem_plain [OF assms(1,2), of "''original_url''" env ext e]
    by (simp del: setitem.simps add: dict_get_setitem getitem_def)
next
  case False
  then obtain w where w: "dict_get e ''original_url'' = Some w" "w \<noteq> VNone" by auto
  have nl: "\<And>f fs. w \<noteq> VLazy f fs" using assms(3) w by (auto simp: is_lazy_def)
  have g: "getitem env ''original_url'' e = (Inr w, e)"
    using w nl by (cases w) (auto simp: getitem_def)
  then have c: "contains env ''original_url'' e = (Inr True, e)"
    using w assms(3) by (simp add: contains_def get_def)
  show ?thesis using False c g w by (simp del: setitem.simps)
qed

lemma url_first:
  assumes "is_basestring v" "to_unicode v = Some u"
    "dict_get e ''original_url'' = None \<or> dict_get e ''original_url'' = Some VNone"
  shows "\<exists>e1. setitem env ext ''url'' v e = (Inr (), e1)
           \<and> dict_get e1 ''original_url'' = Some u \<and> dict_get e1 ''url'' = Some u"
proof -
  obtain cs where u: "u = VUnicode cs" using to_unicode_result [OF assms(2)] by blast
  have bu: "is_basestring u" "to_unicode u = Some u" using u by (simp_all add: is_basestring_def to_unicode_def)
  have nl: "\<not> is_lazy ''original_url'' e" using assms(3) by (auto simp: is_lazy_def)
  from setdefault_original_url [OF bu nl, of env ext] assms(3)
  obtain e1 r where sd: "setdefault env ext ''original_url'' u e = (Inr r, e1)"
     and o: "dict_get e1 ''original_url'' = Some u" by auto
  show ?thesis using sd o u convert_eq [OF assms(1,2)] bu
    by (simp del: setdefault.simps add: dict_get_setitem)
qed

lemma get_title_not_lazy:
  "\<not> is_lazy ''title'' e \<Longrightarrow> snd (get env ''title'' d True None e) = e"
  by (auto simp: get_def getitem_def is_lazy_def split: option.splits pyval.splits)

lemma url_later:
  assumes "dict_get e ''original_url'' = Some w" "w \<noteq> VNone" "\<not> is_lazy ''original_url'' e"
    "is_basestring v \<or> \<not> is_lazy ''title'' e"
  shows "dict_get (snd (setitem env ext ''url'' v e)) ''original_url'' = Some w"
proof (cases "if is_basestring v \<and> \<not> is_unicode_type v then to_unicode v else Some v")
  case None
  then show ?thesis using assms(1) by (simp del: setdefault.simps)
next
  case (Some u)
  show ?thesis
  proof (cases "is_basestring u")
    case False
    then have nb: "\<not> is_basestring v" using Some
      by (auto simp: to_unicode_def is_basestring_def split: if_splits pyval.splits)
    then have t: "snd (get env ''title'' VNone True None e) = e"
      using assms(4) get_title_not_lazy by blast
    show ?thesis using Some False t assms(1)
      by (cases "get env ''title'' VNone True None e") (auto simp del: setdefault.simps split: sum.splits)
  next
    case True
    have "to_unicode u = Some u" using Some True
      by (auto simp: to_unicode_def is_basestring_def is_unicode_type_def split: if_splits pyval.splits)
    from setdefault_original_url [OF True this assms(3), of env ext] assms(1,2)
    obtain e1 r where sd: "setdefault env ext ''original_url'' u e = (Inr r, e1)"
      and o: "dict_get e1 ''original_url'' = Some w" by auto
    show ?thesis using Some True sd o
      by (simp del: setdefault.simps add: dict_get_setitem)
  qed
qed

text \<open>
  C1, as the claim states it, fails for the key \<open>imdb_url\<close>: a string in which
  \<open>extract_id\<close> finds no identifier is stored as \<open>None\<close>, and that is what a read
  returns, not the text form of the string.
\<close>

theorem setitem_imdb_url_counterexample:
  "is_basestring (VStr ''abc'')
   \<and> to_unicode (VStr ''abc'') = Some (VUnicode [97, 98, 99])
   \<and> fst (setitem const_resolvers no_imdb ''imdb_url'' (VStr ''abc'') empty_entry) = Inr ()
   \<and> fst (getitem const_resolvers ''imdb_url''
             (snd (setitem const_resolvers no_imdb ''imdb_url'' (VStr ''abc'') empty_entry)))
       = Inr VNone"
  by (simp add: is_basestring_def is_unicode_type_def to_unicode_def decode_ascii_def
      no_imdb_def truthy_def empty_entry_def getitem_def dict_get_def dict_setitem_def log_add_def)

text \<open>
  C1, amended. For every key other than \<open>imdb_url\<close> and every string \<open>v\<close> that
  \<open>unicode(v)\<close> converts, to \<open>u\<close>, the write \<open>entry[k] = v\<close> succeeds and reading \<open>k\<close>
  back returns \<open>u\<close> and changes nothing (for the key \<open>url\<close>: when \<open>original_url\<close> is
  not a lazy field, whose resolvers the write would call).
\<close>

theorem setitem_then_getitem:
  assumes "is_basestring v" "to_unicode v = Some u" "k \<noteq> ''imdb_url''"
    "k = ''url'' \<longrightarrow> \<not> is_lazy ''original_url'' e"
  shows "\<exists>e1. setitem env ext k v e = (Inr (), e1) \<and> getitem env k e1 = (Inr u, e1)"
proof (cases "k = ''url''")
  case False
  obtain cs where u: "u = VUnicode cs" using to_unicode_result [OF assms(2)] by blast
  show ?thesis using setitem_plain [OF assms(1,2,3) False, of env ext e] u
    by (simp del: setitem.simps add: getitem_def dict_get_setitem)
next
  case True
  obtain cs where u: "u = VUnicode cs" using to_unicode_result [OF assms(2)] by blast
  have bu: "is_basestring u" "to_unicode u = Some u"
    using u by (simp_all add: is_basestring_def to_unicode_def)
  from setdefault_original_url [OF bu, of e env ext] assms(4) True
  obtain e1 r where sd: "setdefault env ext ''original_url'' u e = (Inr r, e1)" by blast
  show ?thesis using True sd u convert_eq [OF assms(1,2)] bu
    by (simp del: setdefault.simps add: getitem_def dict_get_setitem)
qed

theorem setitem_then_getitem_witness:
  "is_basestring (VStr ''abc'')
   \<and> to_unicode (VStr ''abc'') = Some (VUnicode [97, 98, 99])
   \<and> \<not> is_lazy ''original_url'' empty_entry
   \<and> (\<exists>e1. setitem const_resolvers no_imdb ''url'' (VStr ''abc'') empty_entry = (Inr (), e1)
            \<and> getitem const_resolvers ''url'' e1 = (Inr (VUnicode [97, 98, 99]), e1))"
proof -
  have a: "is_basestring (VStr ''abc'')" by (simp add: is_basestring_def)
  have b: "to_unicode (VStr ''abc'') = Some (VUnicode [97, 98, 99])"
    by (simp add: to_unicode_def decode_ascii_def)
  have c: "''url'' \<noteq> ''imdb_url''" by simp
  have d: "\<not> is_lazy ''original_url'' empty_entry"
    by (simp add: is_lazy_def empty_entry_def dict_get_def)
  then have d': "''url'' = ''url'' \<longrightarrow> \<not> is_lazy ''original_url'' empty_entry" by simp
  show ?thesis
    using a b d setitem_then_getitem [OF a b c d', of const_resolvers no_imdb] by blast
qed

text \<open>
  C2. The first write of \<open>url\<close> (no \<open>original_url\<close> stored yet, or \<open>None\<close>) stores the
  same text under \<open>original_url\<close> and \<open>url\<close>. Once \<open>original_url\<close> holds a value
  (not \<open>None\<close>, not a lazy field), a write of \<open>url\<close> leaves it as it is, whether the
  write succeeds or is refused; the text the first write stored is such a value,
  so this holds after every later write.
\<close>

theorem original_url_set_once:
  "(is_basestring v \<and> to_unicode v = Some u
      \<and> (dict_get e ''original_url'' = None \<or> dict_get e ''original_url'' = Some VNone)
    \<longrightarrow> (\<exists>e1. setitem env ext ''url'' v e = (Inr (), e1)
              \<and> dict_get e1 ''original_url'' = Some u \<and> dict_get e1 ''url'' = Some u
              \<and> u \<noteq> VNone \<and> \<not> is_lazy ''original_url'' e1))
   \<and> (dict_get e ''original_url'' = Some w \<and> w \<noteq> VNone \<and> \<not> is_lazy ''original_url'' e
       \<and> (is_basestring v' \<or> \<not> is_lazy ''title'' e)
    \<longrightarrow> dict_get (snd (setitem env ext ''url'' v' e)) ''original_url'' = Some w
        \<and> \<not> is_lazy ''original_url'' (snd (setitem env ext ''url'' v' e)))"
proof -
  have first: "\<exists>e1. setitem env ext ''url'' v e = (Inr (), e1)
              \<and> dict_get e1 ''original_url'' = Some u \<and> dict_get e1 ''url'' = Some u
              \<and> u \<noteq> VNone \<and> \<not> is_lazy ''original_url'' e1"
    if h: "is_basestring v" "to_unicode v = Some u"
      "dict_get e ''original_url'' = None \<or> dict_get e ''original_url'' = Some VNone"
  proof -
    obtain cs where u: "u = VUnicode cs" using to_unicode_result [OF h(2)] by blast
    from url_first [OF h, of env ext] obtain e1 where
      "setitem env ext ''url'' v e = (Inr (), e1)" "dict_get e1 ''original_url'' = Some u"
      "dict_get e1 ''url'' = Some u" by blast
    then show ?thesis using u by (auto simp: is_lazy_def)
  qed
  have later: "dict_get (snd (setitem env ext ''url'' v' e)) ''original_url'' = Some w
        \<and> \<not> is_lazy ''original_url'' (snd (setitem env ext ''url'' v' e))"
    if h: "dict_get e ''original_url'' = Some w" "w \<noteq> VNone" "\<not> is_lazy ''original_url'' e"
      "is_basestring v' \<or> \<not> is_lazy ''title'' e"
  proof -
    have "dict_get (snd (setitem env ext ''url'' v' e)) ''original_url'' = Some w"
      by (rule url_later [OF h])
    then show ?thesis using h(1,3) by (simp add: is_lazy_def)
  qed
  show ?thesis using first later by blast
qed

theorem original_url_set_once_witness:
  "(\<exists>e1. setitem const_resolvers no_imdb ''url'' (VStr ''abc'') empty_entry = (Inr (), e1)
         \<and> dict_get e1 ''original_url'' = Some (VUnicode [97, 98, 99])
         \<and> dict_get e1 ''url'' = Some (VUnicode [97, 98, 99]))
   \<and> dict_get (dict_setitem ''original_url'' (VUnicode [97]) empty_entry) ''original_url''
       = Some (VUnicode [97])
   \<and> dict_get (snd (setitem const_resolvers no_imdb ''url'' (VStr ''xyz'')
                      (dict_setitem ''original_url'' (VUnicode [97]) empty_entry)))
        ''original_url'' = Some (VUnicode [97])"
proof -
  let ?e = "dict_setitem ''original_url'' (VUnicode [97]) empty_entry"
  have a: "is_basestring (VStr ''abc'')" by (simp add: is_basestring_def)
  have b: "to_unicode (VStr ''abc'') = Some (VUnicode [97, 98, 99])"
    by (simp add: to_unicode_def decode_ascii_def)
  have c: "dict_get empty_entry ''original_url'' = None"
    by (simp add: empty_entry_def dict_get_def)
  have d: "dict_get ?e ''original_url'' = Some (VUnicode [97])"
    by (simp add: dict_get_setitem)
  have f: "\<not> is_lazy ''original_url'' ?e" using d by (simp add: is_lazy_def)
  have g: "is_basestring (VStr ''xyz'')" by (simp add: is_basestring_def)
  have n: "VUnicode [97] \<noteq> VNone" by simp
  show ?thesis
    using a b c original_url_set_once [where v = "VStr ''abc''" and u = "VUnicode [97, 98, 99]"
        and e = empty_entry and env = const_resolvers and ext = no_imdb]
      d f g n original_url_set_once [where e = ?e and w = "VUnicode [97]" and v' = "VStr ''xyz''"
        and env = const_resolvers and ext = no_imdb]
    by blast
qed

section \<open>The constructor\<close>

lemma setitem_title:
  "setitem env ext ''title'' t e =
     (case (if is_basestring t \<and> \<not> is_unicode_type t then to_unicode t else Some t) of
        None \<Rightarrow> (Inl (EntryUnicodeError ''title'' t), e)
      | Some t' \<Rightarrow> if \<not> is_basestring t' then (Inl (title_error ext t'), e)
                   else (Inr (), dict_setitem ''title'' t' (log_add (LogEntrySet ''title'' t') e)))"
  by (simp split: option.splits)

lemma setitem_url_fresh:
  assumes "dict_get e ''original_url'' = None"
  shows "setitem env ext ''url'' u e =
     (case (if is_basestring u \<and> \<not> is_unicode_type u then to_unicode u else Some u) of
        None \<Rightarrow> (Inl (EntryUnicodeError ''url'' u), e)
      | Some u' \<Rightarrow>
          if \<not> is_basestring u' then
            (case get env ''title'' VNone True None e of
               (Inl err, e1) \<Rightarrow> (Inl err, e1) | (Inr t, e1) \<Rightarrow> (Inl PluginError, e1))
          else (Inr (), dict_setitem ''url'' u' (log_add (LogEntrySet ''url'' u')
                 (dict_setitem ''original_url'' u' (log_add (LogEntrySet ''original_url'' u') e)))))"
proof (cases "if is_basestring u \<and> \<not> is_unicode_type u then to_unicode u else Some u")
  case None
  then show ?thesis by (simp del: setdefault.simps)
next
  case (Some u')
  show ?thesis
  proof (cases "is_basestring u'")
    case False
    then show ?thesis using Some
      by (simp del: setdefault.simps split: prod.splits sum.splits)
  next
    case True
    have tu: "to_unicode u' = Some u'" and uu: "is_unicode_type u'" using Some True
      by (auto simp: to_unicode_def is_basestring_def is_unicode_type_def split: if_splits pyval.splits)
    have c: "contains env ''original_url'' e = (Inr False, e)"
      using assms by (auto simp: contains_def get_def getitem_def is_lazy_def)
    have nl: "\<And>f fs. u' \<noteq> VLazy f fs" using True by (auto simp: is_basestring_def)
    have g: "\<And>e'. getitem env ''original_url'' (dict_setitem ''original_url'' u' e') = (Inr u', dict_setitem ''original_url'' u' e')"
      using nl by (cases u') (auto simp: getitem_def dict_get_setitem)
    have sd: "setdefault env ext ''original_url'' u' e =
       (Inr u', dict_setitem ''original_url'' u' (log_add (LogEntrySet ''original_url'' u') e))"
      using c True uu g by simp
    show ?thesis using Some True sd by (simp del: setdefault.simps)
  qed
qed


lemma init_title_first:
  assumes "iter_order [(''title'', t), (''url'', u)] = [(''title'', t), (''url'', u)]"
  shows "init env ext iter_order [t, u] [] lg = write_title_url env ext t u (new_entry lg)"
  using assms
  by (simp add: init_def update_def write_title_url_def del: setitem.simps
      split: prod.splits sum.splits)

lemma init_url_first:
  assumes "iter_order [(''title'', t), (''url'', u)] = [(''url'', u), (''title'', t)]"
  shows "init env ext iter_order [t, u] [] lg =
     (case setitem env ext ''url'' u (new_entry lg) of
        (Inl err, e1) \<Rightarrow> (Inl err, e1)
      | (Inr x, e1) \<Rightarrow> setitem env ext ''title'' t e1)"
  using assms
  by (simp add: init_def update_def del: setitem.simps split: prod.splits sum.splits)

lemma new_entry_get [simp]: "dict_get (new_entry lg) k = None"
  by (simp add: new_entry_def dict_get_def)

lemma get_title_concrete_fails:
  "fst (case get env ''title'' VNone True None e of
               (Inl err, e1) \<Rightarrow> (Inl err, e1) | (Inr t, e1) \<Rightarrow> (Inl PluginError, e1)) \<noteq> Inr ()"
  by (simp split: prod.splits sum.splits)

lemma url_first_same:
  assumes "iter_order [(''title'', t), (''url'', u)] = [(''url'', u), (''title'', t)]"
  shows "(fst (init env ext iter_order [t, u] [] lg) = Inr ())
           = (fst (write_title_url env ext t u (new_entry lg)) = Inr ())
       \<and> (fst (write_title_url env ext t u (new_entry lg)) = Inr () \<longrightarrow>
            (\<forall>k. dict_get (snd (init env ext iter_order [t, u] [] lg)) k
                 = dict_get (snd (write_title_url env ext t u (new_entry lg))) k)
            \<and> trace (snd (init env ext iter_order [t, u] [] lg))
                 = trace (snd (write_title_url env ext t u (new_entry lg)))
            \<and> snapshots (snd (init env ext iter_order [t, u] [] lg))
                 = snapshots (snd (write_title_url env ext t u (new_entry lg))))"
proof -
  let ?ct = "if is_basestring t \<and> \<not> is_unicode_type t then to_unicode t else Some t"
  let ?cu = "if is_basestring u \<and> \<not> is_unicode_type u then to_unicode u else Some u"
  have A: "init env ext iter_order [t, u] [] lg =
     (case setitem env ext ''url'' u (new_entry lg) of
        (Inl err, e1) \<Rightarrow> (Inl err, e1)
      | (Inr x, e1) \<Rightarrow> setitem env ext ''title'' t e1)"
    using assms by (rule init_url_first [where iter_order = iter_order and t = t and u = u])
  show ?thesis
  proof (cases ?ct)
    case None
    then show ?thesis unfolding A write_title_url_def
      by (simp only: setitem_title) (simp split: prod.splits sum.splits)
  next
    case ct: (Some t')
    show ?thesis
    proof (cases "is_basestring t'")
      case False
      then show ?thesis using ct unfolding A write_title_url_def
        by (simp only: setitem_title) (simp split: prod.splits sum.splits)
    next
      case bt: True
      show ?thesis
      proof (cases ?cu)
        case None
        then show ?thesis using ct bt unfolding A write_title_url_def
          by (simp add: setitem_title setitem_url_fresh dict_get_setitem del: setitem.simps)
      next
        case cu: (Some u')
        show ?thesis
        proof (cases "is_basestring u'")
          case False
          then show ?thesis using ct bt cu unfolding A write_title_url_def
            by (simp add: setitem_title setitem_url_fresh dict_get_setitem del: setitem.simps
                split: prod.splits sum.splits)
        next
          case True
          then show ?thesis using ct bt cu unfolding A write_title_url_def
            by (simp add: setitem_title setitem_url_fresh dict_get_setitem del: setitem.simps)
              (simp add: dict_setitem_def log_add_def)
        qed
      qed
    qed
  qed
qed

text \<open>
  C10. \<open>Entry(t, u)\<close> takes \<open>t\<close> as \<open>title\<close> and \<open>u\<close> as \<open>url\<close> and writes both
  through \<open>__setitem__\<close>, in the order in which the dict of the keyword arguments
  iterates. Whichever of the two orders that is, the constructor succeeds exactly when
  writing \<open>title = t\<close> then \<open>url = u\<close> on an empty entry does, and then the entry has the
  same fields, trace and snapshots; when \<open>title\<close> comes first the two are the same
  computation.
\<close>

theorem init_two_positional:
  assumes "iter_order [(''title'', t), (''url'', u)] = [(''title'', t), (''url'', u)]
           \<or> iter_order [(''title'', t), (''url'', u)] = [(''url'', u), (''title'', t)]"
  shows "(fst (init env ext iter_order [t, u] [] lg) = Inr ())
           = (fst (write_title_url env ext t u (new_entry lg)) = Inr ())
       \<and> (fst (write_title_url env ext t u (new_entry lg)) = Inr () \<longrightarrow>
            (\<forall>k. dict_get (snd (init env ext iter_order [t, u] [] lg)) k
                 = dict_get (snd (write_title_url env ext t u (new_entry lg))) k)
            \<and> trace (snd (init env ext iter_order [t, u] [] lg))
                 = trace (snd (write_title_url env ext t u (new_entry lg)))
            \<and> snapshots (snd (init env ext iter_order [t, u] [] lg))
                 = snapshots (snd (write_title_url env ext t u (new_entry lg))))
       \<and> (iter_order [(''title'', t), (''url'', u)] = [(''title'', t), (''url'', u)] \<longrightarrow>
            init env ext iter_order [t, u] [] lg = write_title_url env ext t u (new_entry lg))"
proof (cases "iter_order [(''title'', t), (''url'', u)] = [(''title'', t), (''url'', u)]")
  case True
  then have "init env ext iter_order [t, u] [] lg = write_title_url env ext t u (new_entry lg)"
    by (rule init_title_first [where iter_order = iter_order and t = t and u = u])
  then show ?thesis by simp
next
  case False
  then have "iter_order [(''title'', t), (''url'', u)] = [(''url'', u), (''title'', t)]"
    using assms by blast
  then show ?thesis
    using False url_first_same [where iter_order = iter_order and t = t and u = u] by blast
qed

theorem init_two_positional_witness:
  "fst (init const_resolvers no_imdb rev [VStr ''T'', VStr ''http''] [] []) = Inr ()
   \<and> fst (write_title_url const_resolvers no_imdb (VStr ''T'') (VStr ''http'') (new_entry []))
       = Inr ()
   \<and> dict_get (snd (init const_resolvers no_imdb rev [VStr ''T'', VStr ''http''] [] [])) ''url''
       = dict_get (snd (write_title_url const_resolvers no_imdb (VStr ''T'') (VStr ''http'')
                         (new_entry []))) ''url''"
proof -
  have o: "rev [(''title'', VStr ''T''), (''url'', VStr ''http'')]
             = [(''title'', VStr ''T''), (''url'', VStr ''http'')]
         \<or> rev [(''title'', VStr ''T''), (''url'', VStr ''http'')]
             = [(''url'', VStr ''http''), (''title'', VStr ''T'')]"
    by simp
  have s: "fst (write_title_url const_resolvers no_imdb (VStr ''T'') (VStr ''http'')
                 (new_entry [])) = Inr ()"
    by (simp add: write_title_url_def setitem_title setitem_url_fresh dict_get_setitem
        is_basestring_def is_unicode_type_def to_unicode_def decode_ascii_def
        del: setitem.simps)
  show ?thesis
    using s init_two_positional [where iter_order = rev and t = "VStr ''T''"
        and u = "VStr ''http''" and env = const_resolvers and ext = no_imdb and lg = "[]", OF o]
    by simp
qed

section \<open>The display string\<close>

text \<open>
  C9, as the claim states it, fails: \<open>safe_str\<close> reads \<open>self['title']\<close> and
  \<open>self['url']\<close>, and a key that is not stored raises \<open>KeyError\<close>.
\<close>

theorem safe_str_counterexample:
  "safe_str const_resolvers example_str empty_entry = (Inl (KeyError ''title''), empty_entry)
   \<and> safe_str const_resolvers example_str titled_entry = (Inl (KeyError ''url''), titled_entry)"
  by (simp add: safe_str_def getitem_def dict_get_def empty_entry_def titled_entry_def)

text \<open>
  C9, amended. When \<open>title\<close> and \<open>url\<close> can both be read (through their resolvers
  when they are lazy) and are text, \<open>safe_str\<close> returns the title, then \<open>" | "\<close>, then
  the url; when \<open>title\<close> is not stored, or \<open>url\<close> is not, it raises \<open>KeyError\<close> for
  that key.
\<close>

theorem safe_str_display:
  "(getitem env ''title'' e = (Inr (VUnicode a), e1) \<and> getitem env ''url'' e1 = (Inr (VUnicode b), e2)
      \<longrightarrow> safe_str env str_of e = (Inr (VUnicode (a @ [32, 124, 32] @ b)), e2))
   \<and> (dict_get e ''title'' = None \<longrightarrow> safe_str env str_of e = (Inl (KeyError ''title''), e))
   \<and> (getitem env ''title'' e = (Inr t, e1) \<and> dict_get e1 ''url'' = None
      \<longrightarrow> safe_str env str_of e = (Inl (KeyError ''url''), e1))"
  by (simp add: safe_str_def getitem_def format_title_url_def arg_text_def as_text_def)

theorem safe_str_display_witness:
  "safe_str const_resolvers example_str (dict_setitem ''url'' (VUnicode [104]) titled_entry)
     = (Inr (VUnicode [84, 32, 124, 32, 104]), dict_setitem ''url'' (VUnicode [104]) titled_entry)
   \<and> safe_str const_resolvers example_str empty_entry = (Inl (KeyError ''title''), empty_entry)
   \<and> safe_str const_resolvers example_str titled_entry = (Inl (KeyError ''url''), titled_entry)"
proof -
  let ?e = "dict_setitem ''url'' (VUnicode [104]) titled_entry"
  have a: "getitem const_resolvers ''title'' ?e = (Inr (VUnicode [84]), ?e)"
    by (simp add: getitem_def dict_get_def dict_setitem_def titled_entry_def)
  have b: "getitem const_resolvers ''url'' ?e = (Inr (VUnicode [104]), ?e)"
    by (simp add: getitem_def dict_get_def dict_setitem_def titled_entry_def)
  have c: "dict_get empty_entry ''title'' = None" by (simp add: dict_get_def empty_entry_def)
  have d: "getitem const_resolvers ''title'' titled_entry = (Inr (VUnicode [84]), titled_entry)"
    by (simp add: getitem_def dict_get_def titled_entry_def)
  have f: "dict_get titled_entry ''url'' = None" by (simp add: dict_get_def titled_entry_def)
  show ?thesis
    using a b safe_str_display [where env = const_resolvers and e = ?e and ?e1.0 = ?e and ?e2.0 = ?e
        and a = "[84]" and b = "[104]" and str_of = example_str]
      c safe_str_display [where env = const_resolvers and e = empty_entry and str_of = example_str]
      d f safe_str_display [where env = const_resolvers and e = titled_entry and ?e1.0 = titled_entry
        and t = "VUnicode [84]" and str_of = example_str]
    by simp
qed

section \<open>Unregistering resolvers\<close>

lemma setitem_none:
  "k \<noteq> ''url'' \<Longrightarrow> k \<noteq> ''title'' \<Longrightarrow>
   setitem env ext k VNone e = (Inr (), dict_setitem k VNone (log_add (LogEntrySet k VNone) e))"
  by (simp add: is_basestring_def)

lemma is_lazy_iff: "is_lazy k e \<longleftrightarrow> (\<exists>f fs. dict_get e k = Some (VLazy f fs))"
  by (auto simp: is_lazy_def split: option.splits pyval.splits)

lemma unregister_step:
  assumes "\<not> is_lazy ''url'' e" "\<not> is_lazy ''title'' e"
  shows "\<exists>e1. unregister_loop env ext (x # flds) func r e
              = unregister_loop env ext flds func (r + int (removed_for 1 func (dict_get e x))) e1
           \<and> (\<forall>k. dict_get e1 k = (if k = x then map_option (unregistered 1 func) (dict_get e x)
                                     else dict_get e k))"
proof (cases "is_lazy x e")
  case False
  then have "removed_for 1 func (dict_get e x) = 0"
       "map_option (unregistered 1 func) (dict_get e x) = dict_get e x"
    by (cases "dict_get e x"; auto simp: is_lazy_iff removed_for_def unregistered_def
        split: pyval.splits)+
  then show ?thesis using False by (auto simp del: setitem.simps)
next
  case True
  then obtain f fs where v: "dict_get e x = Some (VLazy f fs)" by (auto simp: is_lazy_iff)
  have x: "x \<noteq> ''url''" "x \<noteq> ''title''" using True assms by auto
  show ?thesis
  proof (cases "func \<in> set fs")
    case in_fs: True
    then have "count_list fs func \<noteq> 0" by (simp add: count_list_0_iff)
    then have rf: "removed_for 1 func (dict_get e x) = 1"
      using v by (simp add: removed_for_def min_def)
    let ?e1 = "funcs_map x (remove1 func) e"
    have g1: "dict_get ?e1 k = (if k = x then Some (VLazy f (remove1 func fs)) else dict_get e k)" for k
      using v by (simp add: funcs_map_def dict_get_setitem)
    have lf: "lazy_funcs x e = fs" "lazy_funcs x ?e1 = remove1 func fs"
      using v g1 [of x] by (simp_all add: lazy_funcs_def)
    show ?thesis
    proof (cases "remove1 func fs = []")
      case True
      let ?e2 = "dict_setitem x VNone (log_add (LogEntrySet x VNone) ?e1)"
      have "unregister_loop env ext (x # flds) func r e = unregister_loop env ext flds func (r + 1) ?e2"
        using \<open>is_lazy x e\<close> in_fs lf True setitem_none [OF x, of env ext ?e1]
        by (simp del: setitem.simps)
      moreover have "\<forall>k. dict_get ?e2 k = (if k = x then map_option (unregistered 1 func) (dict_get e x)
                                     else dict_get e k)"
        using v True g1 by (simp add: dict_get_setitem unregistered_def)
      ultimately show ?thesis using rf by auto
    next
      case False
      have "unregister_loop env ext (x # flds) func r e = unregister_loop env ext flds func (r + 1) ?e1"
        using \<open>is_lazy x e\<close> in_fs lf False by (simp del: setitem.simps)
      moreover have "\<forall>k. dict_get ?e1 k = (if k = x then map_option (unregistered 1 func) (dict_get e x)
                                     else dict_get e k)"
        using v False g1 by (simp add: unregistered_def)
      ultimately show ?thesis using rf by auto
    qed
  next
    case notin: False
    then have rf: "removed_for 1 func (dict_get e x) = 0"
      using v by (simp add: removed_for_def)
    have r1: "remove1 func fs = fs" using notin by (simp add: remove1_idem)
    have lf: "lazy_funcs x e = fs" using v by (simp add: lazy_funcs_def)
    show ?thesis
    proof (cases "fs = []")
      case True
      let ?e2 = "dict_setitem x VNone (log_add (LogEntrySet x VNone) e)"
      have "unregister_loop env ext (x # flds) func r e = unregister_loop env ext flds func r ?e2"
        using \<open>is_lazy x e\<close> notin lf True setitem_none [OF x, of env ext e]
        by (simp del: setitem.simps)
      moreover have "\<forall>k. dict_get ?e2 k = (if k = x then map_option (unregistered 1 func) (dict_get e x)
                                     else dict_get e k)"
        using v True by (simp add: dict_get_setitem unregistered_def)
      ultimately show ?thesis using rf by auto
    next
      case False
      have "unregister_loop env ext (x # flds) func r e = unregister_loop env ext flds func r e"
        using \<open>is_lazy x e\<close> notin lf False by (simp del: setitem.simps)
      moreover have "\<forall>k. dict_get e k = (if k = x then map_option (unregistered 1 func) (dict_get e x)
                                     else dict_get e k)"
        using v False r1 by (simp add: unregistered_def)
      ultimately show ?thesis using rf by auto
    qed
  qed
qed


lemma funpow_remove1_Nil: "(remove1 func ^^ c) [] = []"
  by (induction c) simp_all

lemma count_list_remove1: "count_list (remove1 func fs) func = count_list fs func - 1"
  by (induction fs) auto

lemma unregistered_compose:
  "unregistered c func (unregistered 1 func v) = unregistered (Suc c) func v"
proof (cases v)
  case (VLazy f fs)
  have u1: "unregistered 1 func v
              = (if remove1 func fs = [] then VNone else VLazy f (remove1 func fs))"
    using VLazy by (simp add: unregistered_def)
  have uS: "unregistered (Suc c) func v
              = (if (remove1 func ^^ c) (remove1 func fs) = [] then VNone
                 else VLazy f ((remove1 func ^^ c) (remove1 func fs)))"
    using VLazy by (simp add: unregistered_def funpow_swap1)
  show ?thesis
  proof (cases "remove1 func fs = []")
    case True
    then show ?thesis unfolding u1 uS by (simp add: unregistered_def funpow_remove1_Nil)
  next
    case False
    then show ?thesis unfolding u1 uS by (cases c) (simp_all add: unregistered_def)
  qed
qed (simp_all add: unregistered_def)

lemma min_step: "min (Suc 0) n + min c (n - Suc 0) = min (Suc c) n"
  by (cases n) simp_all

lemma removed_compose:
  "removed_for 1 func vo + removed_for c func (map_option (unregistered 1 func) vo)
     = removed_for (Suc c) func vo"
proof (cases vo)
  case None
  then show ?thesis by (simp add: removed_for_def)
next
  case (Some v)
  show ?thesis
  proof (cases v)
    case (VLazy f fs)
    have u1: "unregistered 1 func v
              = (if remove1 func fs = [] then VNone else VLazy f (remove1 func fs))"
      using VLazy by (simp add: unregistered_def)
    show ?thesis
    proof (cases "remove1 func fs = []")
      case True
      then have "count_list fs func - 1 = 0"
        using count_list_remove1 [of func fs] by simp
      then have "min (Suc 0) (count_list fs func) = min (Suc c) (count_list fs func)"
        by (simp add: min_def)
      then show ?thesis using Some VLazy True u1
        by (simp add: removed_for_def)
    next
      case False
      then show ?thesis using Some VLazy u1 min_step [of "count_list fs func" c]
        by (simp add: removed_for_def count_list_remove1)
    qed
  qed (simp_all add: Some removed_for_def unregistered_def)
qed

lemma unregistered_lazy_back:
  "unregistered c func v = VLazy f fs \<Longrightarrow> \<exists>fs'. v = VLazy f fs'"
  by (cases v) (auto simp: unregistered_def split: if_splits)

lemma unregister_total:
  assumes "\<not> is_lazy ''url'' e" "\<not> is_lazy ''title'' e"
  shows "\<exists>e'. unregister_loop env ext flds func r e
             = (Inr (r + int (\<Sum>k\<in>set flds. removed_for (count_list flds k) func (dict_get e k))), e')
           \<and> (\<forall>k. dict_get e' k = map_option (unregistered (count_list flds k) func) (dict_get e k))"
  using assms
proof (induction flds arbitrary: e r)
  case Nil
  have "\<And>v. unregistered 0 func v = v" by (simp add: unregistered_def split: pyval.splits)
  then show ?case by (simp add: option.map_ident map_option.identity cong: map_option_cong)
next
  case (Cons x flds)
  from unregister_step [OF Cons.prems, of env ext x flds func r]
  obtain e1 where
    st: "unregister_loop env ext (x # flds) func r e
           = unregister_loop env ext flds func (r + int (removed_for 1 func (dict_get e x))) e1"
    and g1: "\<And>k. dict_get e1 k = (if k = x then map_option (unregistered 1 func) (dict_get e x)
                                   else dict_get e k)"
    by blast
  have nl: "\<not> is_lazy ''url'' e1" "\<not> is_lazy ''title'' e1"
    using Cons.prems g1 by (auto simp: is_lazy_iff dest: unregistered_lazy_back)
  from Cons.IH [OF nl, of "r + int (removed_for 1 func (dict_get e x))"]
  obtain e' where
    res: "unregister_loop env ext flds func (r + int (removed_for 1 func (dict_get e x))) e1
           = (Inr (r + int (removed_for 1 func (dict_get e x))
                 + int (\<Sum>k\<in>set flds. removed_for (count_list flds k) func (dict_get e1 k))), e')"
    and g': "\<And>k. dict_get e' k = map_option (unregistered (count_list flds k) func) (dict_get e1 k)"
    by blast
  let ?g = "\<lambda>k. removed_for (count_list (x # flds) k) func (dict_get e k)"
  let ?h = "\<lambda>k. removed_for (count_list flds k) func (dict_get e1 k)"
  have same: "?g k = ?h k" if "k \<noteq> x" for k using that g1 by simp
  have hx0: "?h x = 0" if "x \<notin> set flds"
    using that by (simp add: removed_for_def count_list_0_iff split: option.splits pyval.splits)
  have gx: "?g x = removed_for 1 func (dict_get e x) + ?h x"
    using removed_compose [of func "dict_get e x" "count_list flds x"] g1 by simp
  have s1: "sum ?g (set (x # flds)) = ?g x + sum ?g (set flds - {x})"
    by (simp add: sum.insert_remove)
  have s2: "sum ?g (set flds - {x}) = sum ?h (set flds - {x})"
    by (rule sum.cong) (use same in auto)
  have s3: "?h x + sum ?h (set flds - {x}) = sum ?h (set flds)"
  proof (cases "x \<in> set flds")
    case True
    then show ?thesis by (simp add: sum.remove [of "set flds" x ?h])
  next
    case False
    then show ?thesis using hx0 by simp
  qed
  have total: "sum ?g (set (x # flds)) = removed_for 1 func (dict_get e x) + sum ?h (set flds)"
    using s1 s2 s3 gx by linarith
  have fin: "\<And>k. dict_get e' k = map_option (unregistered (count_list (x # flds) k) func) (dict_get e k)"
  proof -
    fix k
    show "dict_get e' k = map_option (unregistered (count_list (x # flds) k) func) (dict_get e k)"
    proof (cases "k = x")
      case True
      then show ?thesis using g' [of k] g1 [of k]
        by (simp add: option.map_comp comp_def unregistered_compose [unfolded One_nat_def])
    next
      case False
      then show ?thesis using g' [of k] g1 [of k] by simp
    qed
  qed
  show ?case using st res total fin by (simp del: unregister_loop.simps)
qed


text \<open>
  C6. On an entry whose \<open>url\<close> and \<open>title\<close> are not lazy fields (the write path
  refuses to store one there), \<open>unregister_lazy_fields\<close> raises nothing; for every
  listed key that holds a lazy field it takes the resolver out of the list, once for
  each time the key is listed; it returns the number of occurrences taken out; and a
  field whose list has become empty holds \<open>None\<close> and is no longer lazy. Every other
  key keeps its value.
\<close>

theorem unregister_lazy_fields_removes:
  assumes "\<not> is_lazy ''url'' e" "\<not> is_lazy ''title'' e"
  shows "\<exists>e'. unregister_lazy_fields env ext flds func e
             = (Inr (int (\<Sum>k\<in>set flds. removed_for (count_list flds k) func (dict_get e k))), e')
           \<and> (\<forall>k. dict_get e' k
                    = map_option (unregistered (count_list flds k) func) (dict_get e k))
           \<and> (\<forall>k f fs. k \<in> set flds \<and> dict_get e k = Some (VLazy f fs)
                    \<and> (remove1 func ^^ count_list flds k) fs = []
                  \<longrightarrow> dict_get e' k = Some VNone \<and> \<not> is_lazy k e')"
proof -
  from unregister_total [OF assms, of env ext flds func 0]
  obtain e' where
    r: "unregister_loop env ext flds func 0 e
          = (Inr (int (\<Sum>k\<in>set flds. removed_for (count_list flds k) func (dict_get e k))), e')"
    and g: "\<And>k. dict_get e' k = map_option (unregistered (count_list flds k) func) (dict_get e k)"
    by auto
  have c: "dict_get e' k = Some VNone \<and> \<not> is_lazy k e'"
    if "k \<in> set flds" "dict_get e k = Some (VLazy f fs)"
       "(remove1 func ^^ count_list flds k) fs = []" for k f fs
  proof -
    have "count_list flds k \<noteq> 0" using that(1) by (simp add: count_list_0_iff)
    then have "dict_get e' k = Some VNone"
      using g [of k] that(2,3) by (simp add: unregistered_def)
    then show ?thesis by (simp add: is_lazy_def)
  qed
  show ?thesis using r g c unfolding unregister_lazy_fields_def by blast
qed

theorem unregister_lazy_fields_removes_witness:
  "\<not> is_lazy ''url'' two_lazy_entry \<and> \<not> is_lazy ''title'' two_lazy_entry
   \<and> (\<exists>e'. unregister_lazy_fields const_resolvers no_imdb [''x'', ''y''] 1 two_lazy_entry
              = (Inr 2, e')
            \<and> dict_get e' ''x'' = Some (VLazy ''x'' [0, 2])
            \<and> dict_get e' ''y'' = Some VNone \<and> \<not> is_lazy ''y'' e')"
proof -
  have a: "\<not> is_lazy ''url'' two_lazy_entry" "\<not> is_lazy ''title'' two_lazy_entry"
    by (simp_all add: is_lazy_def dict_get_def two_lazy_entry_def)
  have x: "dict_get two_lazy_entry ''x'' = Some (VLazy ''x'' [0, 1, 2])"
    and y: "dict_get two_lazy_entry ''y'' = Some (VLazy ''y'' [1])"
    by (simp_all add: dict_get_def two_lazy_entry_def)
  have n: "(\<Sum>k\<in>set [''x'', ''y'']. removed_for (count_list [''x'', ''y''] k) 1
              (dict_get two_lazy_entry k)) = 2"
    using x y by (simp add: removed_for_def)
  from unregister_lazy_fields_removes [OF a, of const_resolvers no_imdb "[''x'', ''y'']" 1]
  obtain e' where
    r: "unregister_lazy_fields const_resolvers no_imdb [''x'', ''y''] 1 two_lazy_entry
          = (Inr (int (\<Sum>k\<in>set [''x'', ''y'']. removed_for (count_list [''x'', ''y''] k) 1
              (dict_get two_lazy_entry k))), e')"
    and g: "\<And>k. dict_get e' k
               = map_option (unregistered (count_list [''x'', ''y''] k) 1) (dict_get two_lazy_entry k)"
    by blast
  have "dict_get e' ''x'' = Some (VLazy ''x'' [0, 2])"
    using g [of "''x''"] x by (simp add: unregistered_def)
  moreover have "dict_get e' ''y'' = Some VNone"
    using g [of "''y''"] y by (simp add: unregistered_def)
  ultimately show ?thesis using a r n by (auto simp: is_lazy_def)
qed

section \<open>Snapshots\<close>

text \<open>
  C8. A field that \<open>deepcopy\<close> refuses with a \<open>TypeError\<close> is left out with a warning
  when the entry has a title: the other fields are captured. The warning is built from
  \<open>self['title']\<close>, though, so on an entry without a title the same refusal ends
  \<open>take_snapshot\<close> with a \<open>KeyError\<close>, and nothing is captured.
\<close>

theorem take_snapshot_aborts_without_title:
  "take_snapshot const_resolvers example_deepcopy ''s'' [] untitled_entry
     = ((Inl (KeyError ''title''), untitled_entry), [])
   \<and> take_snapshot const_resolvers example_deepcopy ''s'' [] mixed_entry
     = ((Inr (), mixed_entry\<lparr>
            snapshots := [(''s'', [(''title'', VUnicode [84]), (''y'', VInt 3)])],
            logged := [LogSnapshotFail ''s'' ''x'' (VUnicode [84])]\<rparr>), [])"
  by (simp add: take_snapshot_def untitled_entry_def mixed_entry_def example_deepcopy_def
      getitem_def dict_get_def upt_rec log_add_def)

lemma reach_agree_sub:
  assumes "reach h S \<subseteq> A" "\<forall>a\<in>A. map_of h' a = map_of h a"
  shows "reach h' S = reach h S"
proof
  show "reach h' S \<subseteq> reach h S"
  proof
    fix a assume "a \<in> reach h' S"
    then show "a \<in> reach h S"
    proof (induction rule: reach.induct)
      case (base a) then show ?case by (rule reach.base)
    next
      case (step a vs v b)
      then have "map_of h a = Some vs" using assms by auto
      then show ?case using step by (blast intro: reach.step)
    qed
  qed
  show "reach h S \<subseteq> reach h' S"
  proof
    fix a assume "a \<in> reach h S"
    then show "a \<in> reach h' S"
    proof (induction rule: reach.induct)
      case (base a) then show ?case by (rule reach.base)
    next
      case (step a vs v b)
      then have "map_of h' a = Some vs" using assms by auto
      then show ?case using step by (blast intro: reach.step)
    qed
  qed
qed

lemma set_alist_update: "set (AList.update k v al) \<subseteq> insert (k, v) (set al)"
  by (induction al) auto

lemma dom_grows:
  assumes "\<forall>a\<in>fst ` set h. map_of h1 a = map_of h a"
  shows "fst ` set h \<subseteq> fst ` set h1"
proof
  fix a assume a: "a \<in> fst ` set h"
  then have "map_of h a \<noteq> None" by (simp add: map_of_eq_None_iff)
  then have "map_of h1 a \<noteq> None" using bspec [OF assms a] by simp
  then show "a \<in> fst ` set h1" by (simp add: map_of_eq_None_iff)
qed

lemma isolated_frame:
  assumes "isolated D V S h snap" "\<forall>a\<in>fst ` set h. map_of h1 a = map_of h a"
  shows "isolated D V S h1 snap"
  unfolding isolated_def
proof
  fix p assume p: "p \<in> set snap"
  then obtain v where v: "(fst p, v) \<in> S"
    and r: "v \<in> V \<Longrightarrow> reach h (refs (snd p)) \<inter> D = {} \<and> reach h (refs (snd p)) \<subseteq> fst ` set h"
    using assms(1) unfolding isolated_def by blast
  have "reach h1 (refs (snd p)) \<inter> D = {} \<and> reach h1 (refs (snd p)) \<subseteq> fst ` set h1"
    if "v \<in> V"
  proof -
    have r1: "reach h (refs (snd p)) \<inter> D = {}" and r2: "reach h (refs (snd p)) \<subseteq> fst ` set h"
      using r [OF that] by simp_all
    have eq: "reach h1 (refs (snd p)) = reach h (refs (snd p))"
      by (rule reach_agree_sub [OF r2 assms(2)])
    show ?thesis using eq r1 r2 dom_grows [OF assms(2)] by auto
  qed
  then show "\<exists>v. (fst p, v) \<in> S \<and>
        (v \<in> V \<longrightarrow> reach h1 (refs (snd p)) \<inter> D = {}
                   \<and> reach h1 (refs (snd p)) \<subseteq> fst ` set h1)"
    using v by blast
qed

lemma getitem_not_lazy: "\<not> is_lazy k e \<Longrightarrow> snd (getitem env k e) = e"
  by (auto simp: getitem_def is_lazy_def split: option.splits pyval.splits)

lemma is_lazy_log_add [simp]: "is_lazy k (log_add m e) = is_lazy k e"
  by (simp add: is_lazy_def)

lemma store_log_add [simp]: "store (log_add m e) = store e"
  by (simp add: log_add_def)

lemma snapshot_fields_isolated:
  assumes "deepcopy_frame dc" and "really_copies dc V"
    and "snapshot_fields env dc name n is snap h e = ((Inr snap', e'), h')"
    and "D \<subseteq> fst ` set h"
    and "isolated D V S h snap"
    and "\<not> is_lazy ''title'' e"
    and "S = set (store e)"
    and "\<forall>i\<in>set is. i < n"
  shows "(\<forall>a\<in>fst ` set h. map_of h' a = map_of h a) \<and> isolated D V S h' snap'"
  using assms(3-8)
proof (induction "is" arbitrary: snap h e)
  case Nil
  then show ?case by (auto split: if_splits)
next
  case (Cons i "is")
  from Cons.prems(1) have len: "length (store e) = n" by (auto split: if_splits)
  obtain field v where fv: "store e ! i = (field, v)" by (cases "store e ! i")
  have "i < length (store e)" using Cons.prems(6) len by simp
  then have inS: "(field, v) \<in> S" using fv Cons.prems(5) by (metis nth_mem)
  have rest: "\<forall>i\<in>set is. i < n" using Cons.prems(6) by simp
  obtain r h1 where dc: "dc h v = (r, h1)" by (cases "dc h v")
  from assms(1) dc have frame: "\<forall>a\<in>fst ` set h. map_of h1 a = map_of h a"
    unfolding deepcopy_frame_def by blast
  have fresh: "reach h1 (refs c) \<inter> fst ` set h = {} \<and> reach h1 (refs c) \<subseteq> fst ` set h1"
    if "r = Inr c" "v \<in> V" for c
    using assms(2) dc that unfolding really_copies_def by blast
  have D1: "D \<subseteq> fst ` set h1" using Cons.prems(2) dom_grows [OF frame] by blast
  have old: "isolated D V S h1 snap" by (rule isolated_frame [OF Cons.prems(3) frame])
  have through: "\<forall>a\<in>fst ` set h. map_of h' a = map_of h a"
    if t: "\<forall>a\<in>fst ` set h1. map_of h' a = map_of h1 a"
  proof
    fix a assume a: "a \<in> fst ` set h"
    then have a1: "a \<in> fst ` set h1" using dom_grows [OF frame] by blast
    show "map_of h' a = map_of h a" using bspec [OF t a1] bspec [OF frame a] by simp
  qed
  show ?case
  proof (cases r)
    case (Inr c)
    have new: "isolated D V S h1 (AList.update field c snap)"
      unfolding isolated_def
    proof
      fix p assume "p \<in> set (AList.update field c snap)"
      then have "p = (field, c) \<or> p \<in> set snap" using set_alist_update by fastforce
      then show "\<exists>v. (fst p, v) \<in> S \<and>
        (v \<in> V \<longrightarrow> reach h1 (refs (snd p)) \<inter> D = {}
                   \<and> reach h1 (refs (snd p)) \<subseteq> fst ` set h1)"
      proof
        assume p: "p = (field, c)"
        have "v \<in> V \<longrightarrow> reach h1 (refs c) \<inter> D = {} \<and> reach h1 (refs c) \<subseteq> fst ` set h1"
          using fresh [OF Inr] Cons.prems(2) by blast
        then show ?thesis using p inS by auto
      next
        assume "p \<in> set snap"
        then show ?thesis using old unfolding isolated_def by blast
      qed
    qed
    have "snapshot_fields env dc name n is (AList.update field c snap) h1 e = ((Inr snap', e'), h')"
      using Cons.prems(1) len fv dc Inr by simp
    from Cons.IH [OF this D1 new Cons.prems(4,5) rest] show ?thesis using through by blast
  next
    case (Inl err)
    show ?thesis
    proof (cases "err = TypeError")
      case False
      then show ?thesis using Cons.prems(1) len fv dc Inl by (cases err) auto
    next
      case True
      obtain r2 e1 where g: "getitem env ''title'' e = (r2, e1)" by (cases "getitem env ''title'' e")
      have e1: "e1 = e" using getitem_not_lazy [OF Cons.prems(4), of env] g by simp
      show ?thesis
      proof (cases r2)
        case (Inl x)
        then show ?thesis using Cons.prems(1) len fv dc \<open>r = Inl err\<close> True g by simp
      next
        case (Inr t)
        let ?e2 = "log_add (LogSnapshotFail name field t) e"
        have run: "snapshot_fields env dc name n is snap h1 ?e2 = ((Inr snap', e'), h')"
          using Cons.prems(1) len fv dc \<open>r = Inl err\<close> True g Inr e1 by simp
        have nl: "\<not> is_lazy ''title'' ?e2" using Cons.prems(4) by simp
        have S2: "S = set (store ?e2)" using Cons.prems(5) by simp
        from Cons.IH [OF run D1 old nl S2 rest] show ?thesis using through by blast
      qed
    qed
  qed
qed

lemma lazy_call_snapshots:
  assumes "\<forall>r e' k'. snapshots (snd (env r e' k')) = snapshots e'"
  shows "snapshots (snd (lazy_call env funcs field e)) = snapshots e"
proof (induction funcs arbitrary: e)
  case Nil
  then show ?case by simp
next
  case (Cons f fs)
  obtain r e1 where st: "env f e field = (r, e1)" by (cases "env f e field")
  then have "snapshots e1 = snapshots e" using assms by (metis snd_conv)
  then show ?case using st Cons.IH [of e1] by (cases r) auto
qed

lemma snapshots_log_add [simp]: "snapshots (log_add m e) = snapshots e"
  by (simp add: log_add_def)

lemma snapshots_dict_setitem [simp]: "snapshots (dict_setitem k v e) = snapshots e"
  by (simp add: dict_setitem_def)

lemma getitem_snapshots:
  assumes "\<forall>r e' k'. snapshots (snd (env r e' k')) = snapshots e'"
  shows "snapshots (snd (getitem env k e)) = snapshots e"
  using lazy_call_snapshots [OF assms]
  by (simp add: getitem_def split: option.splits pyval.splits)

lemma get_snapshots:
  assumes "\<forall>r e' k'. snapshots (snd (env r e' k')) = snapshots e'"
  shows "snapshots (snd (get env k d b l e)) = snapshots e"
proof -
  let ?e1 = "if l \<noteq> None then log_add LogDeprecatedLazy e else e"
  have s1: "snapshots ?e1 = snapshots e" by simp
  have "snapshots (snd (getitem env k ?e1)) = snapshots ?e1"
    by (rule getitem_snapshots [OF assms])
  then show ?thesis using s1
    by (cases "getitem env k ?e1")
       (auto simp: get_def Let_def split: sum.splits pyerror.splits)
qed

lemma contains_snapshots:
  assumes "\<forall>r e' k'. snapshots (snd (env r e' k')) = snapshots e'"
  shows "snapshots (snd (contains env k e)) = snapshots e"
  using get_snapshots [OF assms, of k VNone True None e]
  by (cases "get env k VNone True None e") (auto simp: contains_def split: sum.splits)

lemma setitem_plain_snapshots:
  "k \<noteq> ''url'' \<Longrightarrow> snapshots (snd (setitem env ext k v e)) = snapshots e"
  by (simp add: Let_def split: option.splits)

lemma setdefault_snapshots:
  assumes "\<forall>r e' k'. snapshots (snd (env r e' k')) = snapshots e'" "k \<noteq> ''url''"
  shows "snapshots (snd (setdefault env ext k v e)) = snapshots e"
proof -
  obtain r e1 where c: "contains env k e = (r, e1)" by (cases "contains env k e")
  have s1: "snapshots e1 = snapshots e" using contains_snapshots [OF assms(1), of k e] c by simp
  show ?thesis
  proof (cases r)
    case (Inl err)
    then show ?thesis using c s1 by (simp del: setitem.simps)
  next
    case (Inr present)
    let ?w = "if \<not> present then setitem env ext k v e1 else (Inr (), e1)"
    obtain r2 e2 where w: "?w = (r2, e2)" by (cases ?w)
    have s2: "snapshots e2 = snapshots e1"
      using w setitem_plain_snapshots [OF assms(2), of env ext v e1]
      by (auto simp del: setitem.simps split: if_splits)
    show ?thesis
    proof (cases r2)
      case (Inl err)
      then show ?thesis using c \<open>r = Inr present\<close> w s1 s2 by (simp del: setitem.simps)
    next
      case (Inr u)
      then show ?thesis
        using c \<open>r = Inr present\<close> w s1 s2 getitem_snapshots [OF assms(1), of k e2]
        by (simp del: setitem.simps)
    qed
  qed
qed

lemma setitem_snapshots:
  assumes "\<forall>r e' k'. snapshots (snd (env r e' k')) = snapshots e'"
  shows "snapshots (snd (setitem env ext k v e)) = snapshots e"
proof (cases "k = ''url''")
  case False
  then show ?thesis by (rule setitem_plain_snapshots)
next
  case True
  have sd: "\<And>u. snapshots (snd (setdefault env ext ''original_url'' u e)) = snapshots e"
    by (rule setdefault_snapshots [OF assms]) simp
  have gt: "snapshots (snd (get env ''title'' VNone True None e)) = snapshots e"
    by (rule get_snapshots [OF assms])
  show ?thesis
  proof (cases "if is_basestring v \<and> \<not> is_unicode_type v then to_unicode v else Some v")
    case None
    then show ?thesis using True by (simp del: setdefault.simps)
  next
    case (Some u)
    show ?thesis
    proof (cases "is_basestring u")
      case False
      then show ?thesis using True Some gt
        by (cases "get env ''title'' VNone True None e")
           (auto simp del: setdefault.simps split: sum.splits)
    next
      case bs: True
      then show ?thesis using True Some sd [of u]
        by (cases "setdefault env ext ''original_url'' u e")
           (auto simp del: setdefault.simps split: sum.splits)
    qed
  qed
qed


lemma isolated_Nil: "isolated D V S h []"
  by (simp add: isolated_def)

lemma take_snapshot_stored:
  assumes "take_snapshot env dc name h e = ((Inr (), e1), h1)"
    and "snapshot_fields env dc name (length (store e)) [0..<length (store e)] [] h e
           = ((Inr snapshot, e0), h0)"
    and "snapshot \<noteq> []"
  shows "h0 = h1 \<and> map_of (snapshots e1) name = Some snapshot"
proof -
  let ?w = "if name \<in> fst ` set (snapshots e0) then
              (case getitem env ''title'' e0 of
                 (Inl err, e2) \<Rightarrow> (Inl err, e2)
               | (Inr t, e2) \<Rightarrow> (Inr (), log_add (LogSnapshotOverwrite name t) e2))
            else (Inr (), e0)"
  obtain r2 e2 where w: "?w = (r2, e2)" by (cases ?w)
  have ts: "take_snapshot env dc name h e =
              (case ?w of
                 (Inl err, e2) \<Rightarrow> ((Inl err, e2), h0)
               | (Inr u, e2) \<Rightarrow>
                   ((Inr (), e2\<lparr>snapshots := AList.update name snapshot (snapshots e2)\<rparr>), h0))"
    unfolding take_snapshot_def assms(2) using assms(3) by (simp only: prod.case sum.case simp_thms if_True)
  show ?thesis
  proof (cases r2)
    case (Inl err)
    then show ?thesis using assms(1) unfolding ts w by simp
  next
    case (Inr u)
    then have "e1 = e2\<lparr>snapshots := AList.update name snapshot (snapshots e2)\<rparr>" "h0 = h1"
      using assms(1) unfolding ts w by simp_all
    then show ?thesis by (simp add: update_conv')
  qed
qed


text \<open>
  C7, as the claim states it, fails: \<open>deepcopy\<close> returns a function or a class as it
  is, so the snapshot of a field that holds one holds the live object itself, and a
  change made to that object after the capture (here its contents go from 1 to 99)
  shows in the captured value.
\<close>

theorem take_snapshot_shares_counterexample:
  "take_snapshot const_resolvers deepcopy_as_is ''s'' [(0, [VInt 1])] object_entry
     = ((Inr (), object_entry\<lparr>snapshots := [(''s'', [(''x'', VObj 0)])]\<rparr>), [(0, [VInt 1])])
   \<and> dict_get object_entry ''x'' = Some (VObj 0)
   \<and> map_of ([(0, [VInt 1])] :: heap) 0 = Some [VInt 1]
   \<and> map_of ([(0, [VInt 99])] :: heap) 0 = Some [VInt 99]"
  by (simp add: take_snapshot_def object_entry_def deepcopy_as_is_def dict_get_def upt_rec)

text \<open>
  C7, amended. Let \<open>deepcopy\<close> change no existing object and really copy the values
  in \<open>V\<close>, let the title not be a lazy field (the write path stores none there), and
  let \<open>take_snapshot(name)\<close> return with a snapshot that is not empty. Then the
  snapshot is stored under \<open>name\<close>; taking it changed no object that existed before;
  every captured pair comes from a field of the entry, and when the value of that
  field is one that \<open>deepcopy\<close> really copies, no object reachable from the captured
  value existed before, so none is shared with the live fields, and after any change
  made in place to the objects that existed at the capture the captured value reaches
  the same objects with the same contents; and a write to a field of the live entry
  leaves \<open>snapshots\<close> as it is (the resolvers, which a write of \<open>url\<close> may call,
  being assumed not to assign to \<open>snapshots\<close>).
\<close>

theorem take_snapshot_isolated:
  assumes "deepcopy_frame dc" and "really_copies dc V"
    and "\<not> is_lazy ''title'' e"
    and "take_snapshot env dc name h e = ((Inr (), e1), h1)"
    and "snapshot_fields env dc name (length (store e)) [0..<length (store e)] [] h e
           = ((Inr snapshot, e0), h0)"
    and "snapshot \<noteq> []"
  shows "map_of (snapshots e1) name = Some snapshot
     \<and> (\<forall>a\<in>fst ` set h. map_of h1 a = map_of h a)
     \<and> (\<forall>p\<in>set snapshot. \<exists>v. (fst p, v) \<in> set (store e) \<and>
           (v \<in> V \<longrightarrow>
              reach h1 (refs (snd p)) \<inter> fst ` set h = {}
            \<and> (\<forall>h2. (\<forall>a. a \<notin> fst ` set h \<longrightarrow> map_of h2 a = map_of h1 a) \<longrightarrow>
                   reach h2 (refs (snd p)) = reach h1 (refs (snd p))
                 \<and> (\<forall>a\<in>reach h1 (refs (snd p)). map_of h2 a = map_of h1 a))))
     \<and> (\<forall>env' ext k v. (\<forall>r e' k'. snapshots (snd (env' r e' k')) = snapshots e') \<longrightarrow>
           snapshots (snd (setitem env' ext k v e1)) = snapshots e1)"
proof -
  have h01: "h0 = h1" and stored: "map_of (snapshots e1) name = Some snapshot"
    using take_snapshot_stored [OF assms(4,5,6)] by simp_all
  have idx: "\<forall>i\<in>set [0..<length (store e)]. i < length (store e)" by simp
  have inv: "(\<forall>a\<in>fst ` set h. map_of h0 a = map_of h a)
             \<and> isolated (fst ` set h) V (set (store e)) h0 snapshot"
    by (rule snapshot_fields_isolated
          [OF assms(1,2,5) subset_refl isolated_Nil assms(3) refl idx])
  have frame: "\<forall>a\<in>fst ` set h. map_of h1 a = map_of h a"
    using inv unfolding h01 by (rule conjunct1)
  have iso: "isolated (fst ` set h) V (set (store e)) h1 snapshot"
    using inv unfolding h01 by (rule conjunct2)
  have each: "\<forall>p\<in>set snapshot. \<exists>v. (fst p, v) \<in> set (store e) \<and>
           (v \<in> V \<longrightarrow>
              reach h1 (refs (snd p)) \<inter> fst ` set h = {}
            \<and> (\<forall>h2. (\<forall>a. a \<notin> fst ` set h \<longrightarrow> map_of h2 a = map_of h1 a) \<longrightarrow>
                   reach h2 (refs (snd p)) = reach h1 (refs (snd p))
                 \<and> (\<forall>a\<in>reach h1 (refs (snd p)). map_of h2 a = map_of h1 a)))"
  proof
    fix p assume p: "p \<in> set snapshot"
    then obtain v where v: "(fst p, v) \<in> set (store e)"
      and r: "v \<in> V \<Longrightarrow> reach h1 (refs (snd p)) \<inter> fst ` set h = {}"
      using iso unfolding isolated_def by blast
    have "reach h1 (refs (snd p)) \<inter> fst ` set h = {}
            \<and> (\<forall>h2. (\<forall>a. a \<notin> fst ` set h \<longrightarrow> map_of h2 a = map_of h1 a) \<longrightarrow>
                   reach h2 (refs (snd p)) = reach h1 (refs (snd p))
                 \<and> (\<forall>a\<in>reach h1 (refs (snd p)). map_of h2 a = map_of h1 a))"
      if "v \<in> V"
    proof (intro conjI allI impI)
      show disj: "reach h1 (refs (snd p)) \<inter> fst ` set h = {}" by (rule r [OF that])
      fix h2
      assume m: "\<forall>a. a \<notin> fst ` set h \<longrightarrow> map_of h2 a = map_of h1 a"
      have sub: "reach h1 (refs (snd p)) \<subseteq> - fst ` set h" using disj by blast
      have agree: "\<forall>a\<in>- fst ` set h. map_of h2 a = map_of h1 a" using m by blast
      show "reach h2 (refs (snd p)) = reach h1 (refs (snd p))"
        by (rule reach_agree_sub [OF sub agree])
      show "\<forall>a\<in>reach h1 (refs (snd p)). map_of h2 a = map_of h1 a"
        using sub agree by blast
    qed
    then show "\<exists>v. (fst p, v) \<in> set (store e) \<and>
           (v \<in> V \<longrightarrow>
              reach h1 (refs (snd p)) \<inter> fst ` set h = {}
            \<and> (\<forall>h2. (\<forall>a. a \<notin> fst ` set h \<longrightarrow> map_of h2 a = map_of h1 a) \<longrightarrow>
                   reach h2 (refs (snd p)) = reach h1 (refs (snd p))
                 \<and> (\<forall>a\<in>reach h1 (refs (snd p)). map_of h2 a = map_of h1 a)))"
      using v by blast
  qed
  have rebind: "\<forall>env' ext k v. (\<forall>r e' k'. snapshots (snd (env' r e' k')) = snapshots e') \<longrightarrow>
           snapshots (snd (setitem env' ext k v e1)) = snapshots e1"
    by (intro allI impI) (rule setitem_snapshots)
  show ?thesis by (intro conjI stored frame each rebind)
qed

lemma fold_max_mono: "m \<le> fold max xs (m::nat)"
  by (induction xs arbitrary: m) (auto intro: order_trans [OF max.cobounded2])

lemma fold_max_ge: "a \<in> set xs \<Longrightarrow> a \<le> fold max xs (m::nat)"
proof (induction xs arbitrary: m)
  case Nil
  then show ?case by simp
next
  case (Cons x xs)
  show ?case
  proof (cases "a = x")
    case True
    then show ?thesis using fold_max_mono [of "max x m" xs] by simp
  next
    case False
    then show ?thesis using Cons by simp
  qed
qed

lemma fresh_notin: "fresh h \<notin> fst ` set h"
proof
  assume "fresh h \<in> fst ` set h"
  then have "fresh h \<in> set (map fst h)" by simp
  then have "fresh h \<le> fold max (map fst h) 0" by (rule fold_max_ge)
  then show False by (simp add: fresh_def)
qed

lemma atomic_refs: "atomic v \<Longrightarrow> refs v = {}"
  by (cases v) (simp_all add: atomic_def)

lemma reach_empty: "reach h {} = {}"
proof -
  have "a \<in> reach h {} \<Longrightarrow> False" for a by (induction rule: reach.induct) auto
  then show ?thesis by auto
qed

lemma reach_atomic_cell:
  assumes "map_of h b = Some vs" "list_all atomic vs"
  shows "reach h {b} = {b}"
proof -
  have "a \<in> reach h {b} \<Longrightarrow> a = b" for a
  proof (induction rule: reach.induct)
    case (base a)
    then show ?case by simp
  next
    case (step a vs' v c)
    then have "vs' = vs" using assms(1) by simp
    then have "atomic v" using step assms(2) by (simp add: list_all_iff)
    then show ?case using step by (simp add: atomic_refs)
  qed
  then show ?thesis by (auto intro: reach.base)
qed

lemma map_of_append_old:
  "a \<in> fst ` set h \<Longrightarrow> map_of (h @ h') a = map_of h a"
  by (auto simp: map_add_def map_of_eq_None_iff split: option.splits)

lemma example_deepcopy_cases:
  assumes "example_deepcopy h v = (r, h1)"
  shows "(\<forall>a\<in>fst ` set h. map_of h1 a = map_of h a)
        \<and> (\<forall>c. r = Inr c \<longrightarrow>
              reach h1 (refs c) \<inter> fst ` set h = {} \<and> reach h1 (refs c) \<subseteq> fst ` set h1)"
proof (cases "\<exists>a vs. v = VObj a \<and> map_of h a = Some vs \<and> list_all atomic vs")
  case True
  then obtain a vs where v: "v = VObj a" "map_of h a = Some vs" "list_all atomic vs" by blast
  then have r: "r = Inr (VObj (fresh h))" "h1 = h @ [(fresh h, vs)]"
    using assms by (simp_all add: example_deepcopy_def)
  have "map_of h (fresh h) = None"
    using fresh_notin [of h] by (simp add: map_of_eq_None_iff)
  then have cell: "map_of h1 (fresh h) = Some vs"
    using r by (simp add: map_add_def)
  have "reach h1 {fresh h} = {fresh h}" by (rule reach_atomic_cell [OF cell v(3)])
  moreover have "\<forall>a\<in>fst ` set h. map_of h1 a = map_of h a"
    unfolding r(2) by (intro ballI map_of_append_old)
  ultimately show ?thesis using r fresh_notin [of h] by simp
next
  case False
  then have "h1 = h \<and> (\<forall>c. r = Inr c \<longrightarrow> refs c = {})"
    using assms by (auto simp: example_deepcopy_def split: pyval.splits option.splits if_splits)
  then show ?thesis by (auto simp: reach_empty)
qed

lemma example_deepcopy_frame: "deepcopy_frame example_deepcopy"
  unfolding deepcopy_frame_def using example_deepcopy_cases by blast

lemma example_deepcopy_copies: "really_copies example_deepcopy UNIV"
  unfolding really_copies_def using example_deepcopy_cases by blast

theorem take_snapshot_isolated_witness:
  "\<not> is_lazy ''title'' object_entry
   \<and> take_snapshot const_resolvers example_deepcopy ''s'' [(0, [VInt 1])] object_entry
     = ((Inr (), object_entry\<lparr>snapshots := [(''s'', [(''x'', VObj 1)])]\<rparr>),
        [(0, [VInt 1]), (1, [VInt 1])])
   \<and> map_of (snapshots (object_entry\<lparr>snapshots := [(''s'', [(''x'', VObj 1)])]\<rparr>)) ''s''
       = Some [(''x'', VObj 1)]
   \<and> (''x'', VObj 0) \<in> set (store object_entry)
   \<and> reach [(0, [VInt 99]), (1, [VInt 1])] (refs (VObj 1))
       = reach [(0, [VInt 1]), (1, [VInt 1])] (refs (VObj 1))
   \<and> map_of ([(0, [VInt 99]), (1, [VInt 1])] :: heap) 1 = Some [VInt 1]"
proof -
  let ?h = "[(0, [VInt 1])] :: heap"
  let ?h1 = "[(0, [VInt 1]), (1, [VInt 1])] :: heap"
  let ?h2 = "[(0, [VInt 99]), (1, [VInt 1])] :: heap"
  let ?e1 = "object_entry\<lparr>snapshots := [(''s'', [(''x'', VObj 1)])]\<rparr>"
  have L: "\<not> is_lazy ''title'' object_entry"
    by (simp add: is_lazy_def dict_get_def object_entry_def)
  have B: "snapshot_fields const_resolvers example_deepcopy ''s'' (length (store object_entry))
             [0..<length (store object_entry)] [] ?h object_entry
           = ((Inr [(''x'', VObj 1)], object_entry), ?h1)"
    by (simp add: object_entry_def example_deepcopy_def atomic_def fresh_def upt_rec)
  have A: "take_snapshot const_resolvers example_deepcopy ''s'' ?h object_entry = ((Inr (), ?e1), ?h1)"
    unfolding take_snapshot_def B by (simp add: object_entry_def)
  have D: "[(''x'', VObj 1)] \<noteq> []" by simp
  note T = take_snapshot_isolated [OF example_deepcopy_frame example_deepcopy_copies L A B D]
  have s: "map_of (snapshots ?e1) ''s'' = Some [(''x'', VObj 1)]"
    using T by (rule conjunct1)
  have st: "(''x'', VObj 0) \<in> set (store object_entry)" by (simp add: object_entry_def)
  have m: "\<forall>a. a \<notin> fst ` set ?h \<longrightarrow> map_of ?h2 a = map_of ?h1 a" by simp
  have p: "(''x'', VObj 1) \<in> set [(''x'', VObj 1)]" by simp
  from T [THEN conjunct2, THEN conjunct2, THEN conjunct1, rule_format, OF p]
  obtain v where "v \<in> UNIV \<longrightarrow>
              reach ?h1 (refs (snd (''x'', VObj 1))) \<inter> fst ` set ?h = {}
            \<and> (\<forall>h2. (\<forall>a. a \<notin> fst ` set ?h \<longrightarrow> map_of h2 a = map_of ?h1 a) \<longrightarrow>
                   reach h2 (refs (snd (''x'', VObj 1))) = reach ?h1 (refs (snd (''x'', VObj 1)))
                 \<and> (\<forall>a\<in>reach ?h1 (refs (snd (''x'', VObj 1))). map_of h2 a = map_of ?h1 a))"
    by blast
  then have "reach ?h2 (refs (snd (''x'', VObj 1))) = reach ?h1 (refs (snd (''x'', VObj 1)))"
    using m by blast
  then have r: "reach ?h2 (refs (VObj 1)) = reach ?h1 (refs (VObj 1))" by simp
  show ?thesis using L A s st r by simp
qed

end
